theory Spec2Isabelle
  imports Complex_Main "HOL-Library.Word" "HOL-Library.Log_Nat"
begin

unbundle bit_operations_syntax

section \<open>Errors\<close>

text \<open>
  The sources raise two kinds of exceptions: the project's own \<open>error\<close> objects, which
  carry a code, and the exceptions of the JavaScript runtime (a failed \<open>assert\<close> of the
  Node \<open>assert\<close> module, a \<open>TypeError\<close> on a property of \<open>undefined\<close> or on a call of
  a method that does not exist, a \<open>RangeError\<close> of a typed array, a \<open>ReferenceError\<close> on an
  undeclared name, a failing file-system call).  Every raise is a value \<open>Inl e\<close>.
\<close>

datatype error_code =
    BUFFER_READ_OUT_OF_BOUNDS
  | JS_INTEGER_OVERFLOW
  | MP4_SIDX_INVALID_TIMESCALE
  | MP4_SIDX_TYPE_NOT_SUPPORTED
  | MP4_SIDX_WRONG_BOX_TYPE
  | DASH_CONFLICTING_KEY_IDS
  | DASH_NO_COMMON_KEY_SYSTEM
  | SEGMENT_MANIPULATION_FAILED

datatype error =
    Error error_code
  | AssertionError
  | TypeError
  | RangeError
  | ReferenceError
  | SystemError

fun then_do :: "error + 'a \<Rightarrow> ('a \<Rightarrow> error + 'b) \<Rightarrow> error + 'b" where
  "then_do (Inl e) f = Inl e"
| "then_do (Inr x) f = f x"

section \<open>JavaScript numbers\<close>

text \<open>
  A JavaScript number is an IEEE 754 binary64 value.  A finite number is kept as the
  rational it denotes.  The sum, difference, product or quotient of two numbers is the
  exact result rounded to 53 significant bits, to nearest and in a tie to the even
  significand (\<open>fl\<close>): \<open>round_even\<close> rounds to an integer, \<open>ilog2 x\<close> is the exponent \<open>e\<close>
  with \<open>2^e \<le> x < 2^(e+1)\<close>.  Integers of magnitude up to \<open>2^53\<close> are numbers, and
  arithmetic on them is exact while the result stays in that range.  The exponent range
  is not modelled: a result of magnitude \<open>2^1024\<close> or more (\<open>Infinity\<close> in JavaScript) or
  below \<open>2^-1022\<close> (subnormal) is rounded like any other.  \<open>NaN\<close> and the sign of zero are
  not represented; \<open>Infinity\<close> occurs only as an argument, where it is \<open>None\<close>.
\<close>

definition round_even :: "rat \<Rightarrow> int" where
  "round_even x =
     (let f = \<lfloor>x\<rfloor>; r = x - of_int f
      in if r < 1 / 2 then f else if 1 / 2 < r then f + 1 else if even f then f else f + 1)"

definition ilog2 :: "rat \<Rightarrow> int" where
  "ilog2 x = (if 1 \<le> x then bitlen \<lfloor>x\<rfloor> - 1 else - bitlen (\<lceil>1 / x\<rceil> - 1))"

definition fl :: "rat \<Rightarrow> rat" where
  "fl x =
     (if x = 0 then 0
      else (let e = ilog2 \<bar>x\<bar> - 52;
                m = round_even (\<bar>x\<bar> / 2 powi e)
            in sgn x * of_int m * 2 powi e))"

definition js_add :: "rat \<Rightarrow> rat \<Rightarrow> rat" where
  "js_add a b = fl (a + b)"

definition js_sub :: "rat \<Rightarrow> rat \<Rightarrow> rat" where
  "js_sub a b = fl (a - b)"

definition js_mul :: "rat \<Rightarrow> rat \<Rightarrow> rat" where
  "js_mul a b = fl (a * b)"

definition js_div :: "rat \<Rightarrow> rat \<Rightarrow> rat" where
  "js_div a b = fl (a / b)"

section \<open>Byte buffers and views (DataView, Uint8Array)\<close>

type_synonym byte = "8 word"

text \<open>
  A \<open>DataView\<close> or \<open>Uint8Array\<close> is a window \<open>(buffer, byteOffset, byteLength)\<close> on an
  \<open>ArrayBuffer\<close>.  The window is kept as the three parts of the buffer it determines: the
  bytes before it, its own bytes, and the bytes after it, so that
  \<open>byteOffset + byteLength \<le> buffer.byteLength\<close> holds by construction.
\<close>

record data_view =
  before :: "byte list"
  content :: "byte list"
  after :: "byte list"

definition byteOffset :: "data_view \<Rightarrow> nat" where
  "byteOffset v = length (before v)"

definition byteLength :: "data_view \<Rightarrow> nat" where
  "byteLength v = length (content v)"

definition new_Uint8Array :: "byte list \<Rightarrow> data_view" where
  "new_Uint8Array bs = \<lparr>before = [], content = bs, after = []\<rparr>"

text \<open>
  Modelled from the spec: \<open>buffer_utils\<close> is imported by the sources but is not among
  them.  \<open>toUint8(data, offset, length)\<close> gives a \<open>Uint8Array\<close> on the same buffer, starting
  \<open>offset\<close> bytes from the start of \<open>data\<close> (the offset may be negative, the PSSH parser
  uses \<open>-12\<close> to step back over the box header and "record the original box bytes"),
  clamped to the start of the buffer and to the end of \<open>data\<close>; \<open>length\<close> defaults to
  "up to the end of \<open>data\<close>" (\<open>None\<close>).  \<open>toDataView(data)\<close> is the same window as a
  \<open>DataView\<close>, which this model does not distinguish from a \<open>Uint8Array\<close>.
\<close>

definition toUint8 :: "data_view \<Rightarrow> int \<Rightarrow> int option \<Rightarrow> data_view" where
  "toUint8 d offset len =
     (let buf = before d @ content d @ after d;
          dataEnd = int (byteOffset d) + int (byteLength d);
          rawStart = int (byteOffset d) + offset;
          first = max 0 (min rawStart dataEnd);
          fin = (case len of None \<Rightarrow> dataEnd | Some l \<Rightarrow> min (first + max l 0) dataEnd)
      in \<lparr>before = take (nat first) buf,
          content = take (nat (fin - first)) (drop (nat first) buf),
          after = drop (nat fin) buf\<rparr>)"

fun le_nat :: "byte list \<Rightarrow> nat" where
  "le_nat [] = 0"
| "le_nat (b # bs) = unat b + 256 * le_nat bs"

definition be_nat :: "byte list \<Rightarrow> nat" where
  "be_nat bs = le_nat (rev bs)"

text \<open>\<open>DataView.getUint8/16/32(pos, littleEndian)\<close> for \<open>n = 1, 2, 4\<close>: a \<open>RangeError\<close>
  (\<open>None\<close>) unless \<open>n\<close> bytes lie inside the view at \<open>pos\<close>.\<close>

definition getUint :: "nat \<Rightarrow> data_view \<Rightarrow> nat \<Rightarrow> bool \<Rightarrow> nat option" where
  "getUint n dv pos littleEndian =
     (if pos + n \<le> byteLength dv
      then (let bs = take n (drop pos (content dv))
            in Some (if littleEndian then le_nat bs else be_nat bs))
      else None)"

section \<open>data_view_reader\<close>

record data_view_reader =
  dataView :: data_view
  littleEndian :: bool
  position :: nat

definition new_data_view_reader :: "data_view \<Rightarrow> bool \<Rightarrow> data_view_reader" where
  "new_data_view_reader d le = \<lparr>dataView = d, littleEndian = le, position = 0\<rparr>"

definition hasMoreData :: "data_view_reader \<Rightarrow> bool" where
  "hasMoreData r \<longleftrightarrow> position r < byteLength (dataView r)"

definition outOfBounds :: error where
  "outOfBounds = Error BUFFER_READ_OUT_OF_BOUNDS"

text \<open>The class defines no \<open>getLength\<close> method, although \<open>mp4parser\<close> calls
  \<open>reader.getLength()\<close>: such a call raises a \<open>TypeError\<close> (not a function).\<close>

definition getLength :: "data_view_reader \<Rightarrow> error + nat" where
  "getLength r = Inl TypeError"

definition readUint8 :: "data_view_reader \<Rightarrow> error + nat \<times> data_view_reader" where
  "readUint8 r =
     (case getUint 1 (dataView r) (position r) (littleEndian r) of
        None \<Rightarrow> Inl outOfBounds
      | Some v \<Rightarrow> Inr (v, r\<lparr>position := position r + 1\<rparr>))"


definition readUint32 :: "data_view_reader \<Rightarrow> error + nat \<times> data_view_reader" where
  "readUint32 r =
     (case getUint 4 (dataView r) (position r) (littleEndian r) of
        None \<Rightarrow> Inl outOfBounds
      | Some v \<Rightarrow> Inr (v, r\<lparr>position := position r + 4\<rparr>))"

text \<open>
  \<open>readUint64\<close>: both 32-bit halves are read inside one \<open>try\<close>; the first half read is the
  low one for a little-endian reader and the high one otherwise.  The result
  \<open>high * 2^32 + low\<close> is below \<open>2^53\<close> once the overflow test has passed, hence exact as
  a JavaScript number.
\<close>

definition readUint64 :: "data_view_reader \<Rightarrow> error + nat \<times> data_view_reader" where
  "readUint64 r =
     (let halves =
        (if littleEndian r
         then (case getUint 4 (dataView r) (position r) True of
                 None \<Rightarrow> None
               | Some low \<Rightarrow>
                   (case getUint 4 (dataView r) (position r + 4) True of
                      None \<Rightarrow> None
                    | Some high \<Rightarrow> Some (low, high)))
         else (case getUint 4 (dataView r) (position r) False of
                 None \<Rightarrow> None
               | Some high \<Rightarrow>
                   (case getUint 4 (dataView r) (position r + 4) False of
                      None \<Rightarrow> None
                    | Some low \<Rightarrow> Some (low, high))))
      in case halves of
           None \<Rightarrow> Inl outOfBounds
         | Some (low, high) \<Rightarrow>
             if high > 0x1FFFFF then Inl (Error JS_INTEGER_OVERFLOW)
             else Inr (high * 2 ^ 32 + low, r\<lparr>position := position r + 8\<rparr>))"

definition readBytes :: "data_view_reader \<Rightarrow> int \<Rightarrow> error + data_view \<times> data_view_reader" where
  "readBytes r bytes =
     (if bytes < 0 then Inl AssertionError
      else if int (position r) + bytes > int (byteLength (dataView r)) then Inl outOfBounds
      else Inr (toUint8 (dataView r) (int (position r)) (Some bytes),
                r\<lparr>position := position r + nat bytes\<rparr>))"


section \<open>mp4parser\<close>

datatype box_kind = BASIC_BOX | FULL_BOX

text \<open>A \<open>ParsedBox\<close>; its \<open>parser\<close> field is the parser object itself, whose \<open>done_\<close> flag
  is threaded through \<open>parse_boxes\<close> below.\<close>

record parsed_box =
  box_partialOkay :: bool
  box_version :: "nat option"
  box_flags :: "nat option"
  box_reader :: data_view_reader
  box_size :: nat
  box_start :: nat
  box_has64BitSize :: bool

text \<open>
  A registered box definition is either \<open>mp4parser.children\<close> or a callback of the client.
  A callback works on the state \<open>'s\<close> of the client (the object whose fields it
  updates) and reports whether it called \<open>box.parser.stop()\<close>.  \<open>headers_\<close> and
  \<open>boxDefinitions_\<close>, both indexed by the type code, are one table here.
\<close>

datatype 's box_definition =
    Children
  | Callback "parsed_box \<Rightarrow> 's \<Rightarrow> error + 's \<times> bool"

type_synonym 's box_definitions = "nat \<Rightarrow> (box_kind \<times> 's box_definition) option"

text \<open>\<open>typeFromString_\<close>: \<open>(code << 8) | charCode\<close> over the four characters; for the
  ASCII names registered in the sources the 32-bit result is non-negative and equals
  this base-256 number.\<close>

definition typeFromString :: "string \<Rightarrow> nat" where
  "typeFromString name = foldl (\<lambda>code chr. code * 256 + of_char chr) 0 name"

definition headerSize :: "parsed_box \<Rightarrow> nat" where
  "headerSize box =
     8 + (if box_has64BitSize box then 8 else 0) + (if box_flags box \<noteq> None then 4 else 0)"

text \<open>
  \<open>parseNext\<close> up to the call of the box definition: the header is read, the payload is
  cut out of the reader (which is thereby advanced to the end of the box) and the
  \<open>ParsedBox\<close> is built on a reader of the payload.  The four places that call
  \<open>reader.getLength()\<close> raise a \<open>TypeError\<close>: under \<open>stopOnPartial\<close>, for a size field
  of 0, under \<open>partialOkay\<close>, and for a box type with no registered definition.
\<close>

definition parseNext_box ::
  "'s box_definitions \<Rightarrow> nat \<Rightarrow> data_view_reader \<Rightarrow> bool \<Rightarrow> bool \<Rightarrow>
     error + (parsed_box \<times> 's box_definition) \<times> data_view_reader" where
  "parseNext_box defs absStart reader partialOkay stopOnPartial =
     (let start = position reader in
      if stopOnPartial then Inl TypeError
      else
        then_do (readUint32 reader) (\<lambda>(size0, r1).
        then_do (readUint32 r1) (\<lambda>(type, r2).
        then_do (if size0 = 0 then Inl TypeError
                 else if size0 = 1
                 then then_do (readUint64 r2) (\<lambda>(s, r3). Inr (s, True, r3))
                 else Inr (size0, False, r2)) (\<lambda>(size, has64, r3).
        case defs type of
          None \<Rightarrow> Inl TypeError
        | Some (kind, defn) \<Rightarrow>
            then_do (if kind = FULL_BOX
                     then then_do (readUint32 r3)
                            (\<lambda>(versionAndFlags, r4).
                               Inr (Some (versionAndFlags div 2 ^ 24),
                                    Some (versionAndFlags mod 2 ^ 24), r4))
                     else Inr (None, None, r3)) (\<lambda>(version, flags, r4).
            if partialOkay then Inl TypeError
            else
              (let fin = int start + int size;
                   payloadSize = fin - int (position r4)
               in then_do (if payloadSize > 0 then readBytes r4 payloadSize
                           else Inr (new_Uint8Array [], r4)) (\<lambda>(payload, r5).
                    Inr ((\<lparr>box_partialOkay = partialOkay,
                            box_version = version,
                            box_flags = flags,
                            box_reader = new_data_view_reader payload False,
                            box_size = size,
                            box_start = start + absStart,
                            box_has64BitSize = has64\<rparr>, defn), r5))))))))"

text \<open>
  The loop \<open>while (reader.hasMoreData() && !this.done_) this.parseNext(...)\<close> of \<open>parse\<close>,
  which is also the loop of \<open>children\<close> on the payload reader of a box.  \<open>stopped\<close> is
  the parser's \<open>done_\<close> flag.
\<close>

function parse_boxes ::
  "'s box_definitions \<Rightarrow> nat \<Rightarrow> bool \<Rightarrow> bool \<Rightarrow> data_view_reader \<Rightarrow> 's \<Rightarrow> bool \<Rightarrow>
     error + 's \<times> bool" where
  "parse_boxes defs absStart partialOkay stopOnPartial reader st stopped =
     (if hasMoreData reader \<and> \<not> stopped then
        (case parseNext_box defs absStart reader partialOkay stopOnPartial of
           Inl e \<Rightarrow> Inl e
         | Inr ((box, defn), reader') \<Rightarrow>
             (case (case defn of
                      Children \<Rightarrow>
                        parse_boxes defs (box_start box + headerSize box)
                          (box_partialOkay box) False (box_reader box) st stopped
                    | Callback f \<Rightarrow>
                        (case f box st of
                           Inl e \<Rightarrow> Inl e
                         | Inr (st', stop) \<Rightarrow> Inr (st', stopped \<or> stop))) of
                Inl e \<Rightarrow> Inl e
              | Inr (st', stopped') \<Rightarrow>
                  parse_boxes defs absStart partialOkay stopOnPartial reader' st' stopped'))
      else Inr (st, stopped))"
  by pat_completeness auto

lemma then_do_Inr_E:
  assumes "then_do m f = Inr y"
  obtains x where "m = Inr x" and "f x = Inr y"
  using assms by (cases m) simp_all

lemma readUint32_Inr_D:
  "readUint32 r = Inr (v, r') \<Longrightarrow> dataView r' = dataView r \<and> position r' = position r + 4"
  by (auto simp: readUint32_def split: option.splits)

lemma readUint64_Inr_D:
  "readUint64 r = Inr (v, r') \<Longrightarrow> dataView r' = dataView r \<and> position r' = position r + 8"
  by (auto simp: readUint64_def Let_def split: option.splits if_splits)

lemma readBytes_Inr_D:
  "readBytes r n = Inr (p, r') \<Longrightarrow>
     dataView r' = dataView r \<and> position r \<le> position r' \<and> 0 \<le> n \<and>
     int (position r) + n \<le> int (byteLength (dataView r)) \<and> byteLength p = nat n"
  by (auto simp: readBytes_def toUint8_def byteLength_def byteOffset_def Let_def
           split: if_splits)

lemma parseNext_box_progress:
  "parseNext_box defs a r p s = Inr ((box, defn), r') \<Longrightarrow>
     dataView r' = dataView r \<and> position r + 8 \<le> position r' \<and>
     position (box_reader box) = 0 \<and>
     (byteLength (dataView (box_reader box)) = 0 \<or>
      byteLength (dataView (box_reader box)) + position r + 8 \<le> byteLength (dataView r))"
  unfolding parseNext_box_def Let_def
  by (auto elim!: then_do_Inr_E
           dest!: readUint32_Inr_D readUint64_Inr_D readBytes_Inr_D
           simp: new_data_view_reader_def new_Uint8Array_def byteLength_def
           split: if_splits option.splits)

termination parse_boxes
proof (relation "measure (\<lambda>(defs, absStart, partialOkay, stopOnPartial, reader, st, stopped).
                   byteLength (dataView reader) - position reader)", goal_cases)
  case 1
  show ?case by simp
next
  case (2 defs absStart partialOkay stopOnPartial reader st stopped x2 x y xa ya)
  then show ?case
    using parseNext_box_progress [of defs absStart reader partialOkay stopOnPartial xa ya y]
    by (auto simp: hasMoreData_def)
next
  case (3 defs absStart partialOkay stopOnPartial reader st stopped x2 x y xa ya x2a xb yb)
  then show ?case
    using parseNext_box_progress [of defs absStart reader partialOkay stopOnPartial xa ya y]
    by (auto simp: hasMoreData_def)
qed

text \<open>\<open>parse(data, partialOkay, stopOnPartial)\<close>: a big-endian reader on the data, the
  \<open>done_\<close> flag reset, then the loop.\<close>

definition parse ::
  "'s box_definitions \<Rightarrow> data_view \<Rightarrow> bool \<Rightarrow> bool \<Rightarrow> 's \<Rightarrow> error + 's \<times> bool" where
  "parse defs d partialOkay stopOnPartial st =
     parse_boxes defs 0 partialOkay stopOnPartial (new_data_view_reader d False) st False"

section \<open>Hexadecimal strings (uint8array_utils)\<close>

text \<open>
  \<open>toHex\<close> writes each byte with \<open>Number.prototype.toString(16)\<close>, which uses the digits
  \<open>0-9a-f\<close>, and pads a single digit with \<open>0\<close>.
\<close>

definition hexDigit :: "nat \<Rightarrow> char" where
  "hexDigit n = (if n < 10 then char_of (48 + n) else char_of (87 + n))"

definition toString16 :: "nat \<Rightarrow> string" where
  "toString16 v = (if v < 16 then [hexDigit v] else [hexDigit (v div 16), hexDigit (v mod 16)])"

definition toHex :: "data_view \<Rightarrow> string" where
  "toHex d =
     concat (map (\<lambda>b. let s = toString16 (unat b) in if length s = 1 then CHR ''0'' # s else s)
                 (content d))"

text \<open>
  \<open>fromHex\<close> stores \<open>parseInt(str.substr(i * 2, 2), 16)\<close> in a \<open>Uint8Array\<close> of
  \<open>str.length / 2\<close> elements.  \<open>parseInt\<close> skips leading white space, takes a sign and a
  \<open>0x\<close> prefix, then reads the longest run of hexadecimal digits of either case and
  gives \<open>NaN\<close> (\<open>None\<close>) when there is none.  A typed array stores \<open>NaN\<close> as 0 and an
  integer modulo 256; a fractional length is truncated and a store past the end is
  ignored, so that an odd trailing character is dropped.
\<close>

definition isHexDigit :: "char \<Rightarrow> bool" where
  "isHexDigit c \<longleftrightarrow>
     (let n = (of_char c :: nat)
      in (48 \<le> n \<and> n \<le> 57) \<or> (97 \<le> n \<and> n \<le> 102) \<or> (65 \<le> n \<and> n \<le> 70))"

definition hexValue :: "char \<Rightarrow> nat" where
  "hexValue c =
     (let n = (of_char c :: nat)
      in if n \<le> 57 then n - 48 else if 97 \<le> n then n - 87 else n - 55)"

definition isWhiteSpace :: "char \<Rightarrow> bool" where
  "isWhiteSpace c \<longleftrightarrow> (let n = (of_char c :: nat) in (9 \<le> n \<and> n \<le> 13) \<or> n = 32)"

definition parseInt16 :: "string \<Rightarrow> int option" where
  "parseInt16 s =
     (let s1 = dropWhile isWhiteSpace s;
          negative = (case s1 of [] \<Rightarrow> False | c # _ \<Rightarrow> c = CHR ''-'');
          s2 = (case s1 of [] \<Rightarrow> []
                | c # cs \<Rightarrow> if c = CHR ''-'' \<or> c = CHR ''+'' then cs else s1);
          s3 = (case s2 of
                  a # b # cs \<Rightarrow>
                    if a = CHR ''0'' \<and> (b = CHR ''x'' \<or> b = CHR ''X'') then cs else s2
                | _ \<Rightarrow> s2);
          ds = takeWhile isHexDigit s3
      in if ds = [] then None
         else Some ((if negative then - 1 else 1)
                    * int (foldl (\<lambda>acc c. acc * 16 + hexValue c) 0 ds)))"

definition fromHex :: "string \<Rightarrow> byte list" where
  "fromHex str =
     map (\<lambda>i. case parseInt16 (take 2 (drop (i * 2) str)) of
                 None \<Rightarrow> 0
               | Some v \<Rightarrow> word_of_int v)
         [0..<length str div 2]"

definition toLowerCase :: "string \<Rightarrow> string" where
  "toLowerCase s =
     map (\<lambda>c. let n = (of_char c :: nat) in if 65 \<le> n \<and> n \<le> 90 then char_of (n + 32) else c) s"

section \<open>The PSSH parser and builder (class pssh)\<close>

record pssh =
  systemIds :: "string list"
  cencKeyIds :: "string list"
  data :: "data_view list"

fun read_key_ids :: "nat \<Rightarrow> data_view_reader \<Rightarrow> pssh \<Rightarrow> error + pssh" where
  "read_key_ids 0 r st = Inr st"
| "read_key_ids (Suc n) r st =
     (case readBytes r 16 of
        Inl e \<Rightarrow> Inl e
      | Inr (keyId, r') \<Rightarrow> read_key_ids n r' (st\<lparr>cencKeyIds := cencKeyIds st @ [toHex keyId]\<rparr>))"

text \<open>\<open>parsePsshBox_\<close>; it never calls \<open>stop()\<close>.  The two leading \<open>assert\<close>s fail on a
  box without version or flags.\<close>

definition parsePsshBox :: "parsed_box \<Rightarrow> pssh \<Rightarrow> error + pssh \<times> bool" where
  "parsePsshBox box st =
     (case box_version box of
        None \<Rightarrow> Inl AssertionError
      | Some version \<Rightarrow>
     (case box_flags box of
        None \<Rightarrow> Inl AssertionError
      | Some flags \<Rightarrow>
          if version > 1 then Inr (st, False)
          else if byteOffset (dataView (box_reader box)) < 12 then Inl AssertionError
          else
            (let whole = toUint8 (dataView (box_reader box)) (- 12) (Some (int (box_size box)));
                 st1 = st\<lparr>data := data st @ [whole]\<rparr>
             in case readBytes (box_reader box) 16 of
                  Inl e \<Rightarrow> Inl e
                | Inr (systemId, r1) \<Rightarrow>
                    (let st2 = st1\<lparr>systemIds := systemIds st1 @ [toHex systemId]\<rparr>
                     in if version > 0
                        then (case readUint32 r1 of
                                Inl e \<Rightarrow> Inl e
                              | Inr (numKeyIds, r2) \<Rightarrow>
                                  (case read_key_ids numKeyIds r2 st2 of
                                     Inl e \<Rightarrow> Inl e
                                   | Inr st3 \<Rightarrow> Inr (st3, False)))
                        else Inr (st2, False)))))"

definition pssh_boxDefinitions :: "pssh box_definitions" where
  "pssh_boxDefinitions type =
     (if type = typeFromString ''moov'' then Some (BASIC_BOX, Children)
      else if type = typeFromString ''pssh'' then Some (FULL_BOX, Callback parsePsshBox)
      else None)"

text \<open>The constructor \<open>new pssh(psshBox)\<close>; the warning when no box was recorded is not
  modelled.\<close>

definition new_pssh :: "data_view \<Rightarrow> error + pssh" where
  "new_pssh psshBox =
     (case parse pssh_boxDefinitions psshBox False False
             \<lparr>systemIds = [], cencKeyIds = [], data = []\<rparr> of
        Inl e \<Rightarrow> Inl e
      | Inr (st, stopped) \<Rightarrow> Inr st)"

text \<open>
  \<open>createPssh\<close> fills a zeroed \<open>Uint8Array\<close> of \<open>psshSize\<close> bytes through a \<open>DataView\<close>
  (\<open>setUint32\<close>, big-endian, the value taken modulo \<open>2^32\<close>) and through
  \<open>TypedArray.set\<close>; both raise a \<open>RangeError\<close> when the write does not fit.  \<open>keyIds\<close> is a
  \<open>Set\<close> of strings, given here as the list of its elements in insertion order.
\<close>

definition set_bytes :: "byte list \<Rightarrow> nat \<Rightarrow> byte list \<Rightarrow> error + byte list" where
  "set_bytes buf off src =
     (if off + length src > length buf then Inl RangeError
      else Inr (take off buf @ src @ drop (off + length src) buf))"

definition be32 :: "nat \<Rightarrow> byte list" where
  "be32 v = [of_nat (v div 2 ^ 24), of_nat (v div 2 ^ 16), of_nat (v div 2 ^ 8), of_nat v]"

definition setUint32 :: "byte list \<Rightarrow> nat \<Rightarrow> nat \<Rightarrow> error + byte list" where
  "setUint32 buf off v = set_bytes buf off (be32 v)"

fun write_key_ids :: "byte list \<Rightarrow> nat \<Rightarrow> string list \<Rightarrow> error + byte list \<times> nat" where
  "write_key_ids buf byteCursor [] = Inr (buf, byteCursor)"
| "write_key_ids buf byteCursor (keyId # keyIds) =
     (let KID = fromHex keyId
      in then_do (set_bytes buf byteCursor KID)
           (\<lambda>buf'. write_key_ids buf' (byteCursor + length KID) keyIds))"

definition createPssh :: "byte list \<Rightarrow> byte list \<Rightarrow> string list \<Rightarrow> int \<Rightarrow> error + byte list" where
  "createPssh dat systemId keyIds version =
     (if length systemId \<noteq> 16 then Inl AssertionError
      else
        (let dataLength = length dat;
             psshSize = 4 + 4 + 4 + length systemId + 4 + dataLength
                        + (if version > 0 then 4 + 16 * length keyIds else 0);
             psshBox = replicate psshSize (0 :: byte)
         in then_do (setUint32 psshBox 0 psshSize) (\<lambda>b1.
            then_do (setUint32 b1 4 0x70737368) (\<lambda>b2.
            then_do (if version < 1 then setUint32 b2 8 0 else setUint32 b2 8 0x01000000) (\<lambda>b3.
            then_do (set_bytes b3 12 systemId) (\<lambda>b4.
            then_do (if version > 0
                     then then_do (setUint32 b4 (12 + length systemId) (length keyIds))
                            (\<lambda>b5. write_key_ids b5 (12 + length systemId + 4) keyIds)
                     else Inr (b4, 12 + length systemId)) (\<lambda>(b6, byteCursor).
            then_do (setUint32 b6 byteCursor dataLength) (\<lambda>b7.
            then_do (set_bytes b7 (byteCursor + 4) dat) (\<lambda>b8.
              if byteCursor + 4 + dataLength = psshSize then Inr b8
              else Inl AssertionError)))))))))"

section \<open>Segment references and the SIDX parser\<close>

text \<open>
  A \<open>segment_reference\<close> as its constructor fills it from its first nine arguments (the
  remaining fields take their defaults and \<open>trueEndTime\<close> repeats \<open>endTime\<close>).  Times and
  byte positions are JavaScript numbers; the URI callback, the init segment reference and
  the append window are passed through unread.  The constructor asserts
  \<open>startTime <= endTime\<close> and, for a non-null \<open>endByte\<close>, \<open>startByte < endByte\<close>.
\<close>

record ('u, 'i, 'w) segment_reference =
  startTime :: rat
  endTime :: rat
  getUrisInner :: 'u
  startByte :: rat
  endByte :: "rat option"
  initSegmentReference :: 'i
  timestampOffset :: rat
  appendWindowStart :: 'w
  appendWindowEnd :: 'w






section \<open>SegmentTimeline expansion (mpd_utils.createTimeline)\<close>

text \<open>
  An \<open>S\<close> element is given by what \<open>xml_utils.parseAttr\<close> returns for its attributes:
  \<open>t\<close> and \<open>d\<close> through \<open>parseNonNegativeInt\<close>, \<open>r\<close> through \<open>parseInt\<close>, \<open>None\<close> for
  \<open>null\<close>, otherwise the integer value of the number returned.  Times are JavaScript
  numbers; \<open>periodDuration = None\<close> is \<open>Infinity\<close>.  The local \<open>startTime\<close> of the source is
  \<open>start\<close> below.
\<close>

record s_element =
  attr_t :: "nat option"
  attr_d :: "nat option"
  attr_r :: "int option"

record time_range =
  range_start :: rat
  range_end :: rat
  unscaledStart :: rat

datatype timeline_warning =
    MissingDuration
  | NegativeRepeatNextWithoutStart
  | NegativeRepeatStartExceedsNext
  | NegativeRepeatInfinitePeriod
  | NegativeRepeatStartExceedsPeriod
  | LargeGapOverlap

text \<open>\<open>manifest_parser_utils.GAP_OVERLAP_TOLERANCE_SECONDS = 1 / 15\<close>.\<close>

definition GAP_OVERLAP_TOLERANCE_SECONDS :: rat where
  "GAP_OVERLAP_TOLERANCE_SECONDS = js_div 1 15"

text \<open>The block \<open>if (repeat < 0) { ... }\<close>: the repeat count of an \<open>S\<close> element with a
  negative \<open>r\<close>, or the warning with which \<open>createTimeline\<close> returns early.  \<open>Math.ceil\<close>
  is exact.\<close>

definition negative_repeat ::
  "rat \<Rightarrow> rat option \<Rightarrow> rat \<Rightarrow> nat \<Rightarrow> s_element list \<Rightarrow> timeline_warning + int" where
  "negative_repeat timescale periodDuration start d rest =
     (case rest of
        next # _ \<Rightarrow>
          (case attr_t next of
             None \<Rightarrow> Inl NegativeRepeatNextWithoutStart
           | Some nextStartTime \<Rightarrow>
               if start \<ge> of_nat nextStartTime then Inl NegativeRepeatStartExceedsNext
               else Inr (\<lceil>js_div (js_sub (of_nat nextStartTime) start) (of_nat d)\<rceil> - 1))
      | [] \<Rightarrow>
          (case periodDuration of
             None \<Rightarrow> Inl NegativeRepeatInfinitePeriod
           | Some pd \<Rightarrow>
               if js_div start timescale \<ge> pd then Inl NegativeRepeatStartExceedsPeriod
               else Inr (\<lceil>js_div (js_sub (js_mul pd timescale) start) (of_nat d)\<rceil> - 1)))"

text \<open>The loop \<open>for (j = 0; j <= repeat; ++j)\<close>, by its number of iterations; it returns
  the entries pushed and \<open>lastEndTime\<close>, which an iteration sets to its \<open>endTime\<close>.\<close>

fun emit_ranges :: "nat \<Rightarrow> rat \<Rightarrow> rat \<Rightarrow> rat \<Rightarrow> rat \<Rightarrow> time_range list \<times> rat" where
  "emit_ranges 0 start d timescale lastEndTime = ([], lastEndTime)"
| "emit_ranges (Suc n) start d timescale lastEndTime =
     (let endTime = js_add start d;
          item = \<lparr>range_start = js_div start timescale,
                  range_end = js_div endTime timescale,
                  unscaledStart = start\<rparr>;
          (items, lastEndTime') = emit_ranges n endTime d timescale endTime
      in (item # items, lastEndTime'))"

text \<open>The loop over the \<open>S\<close> elements, on the state \<open>(timeline, lastEndTime)\<close> and the
  warnings logged so far; \<open>rest\<close> starts with \<open>next = timePoints[i + 1]\<close>.  A \<open>return\<close>
  inside the loop ends it with the timeline built so far.\<close>

fun timeline_loop ::
  "rat \<Rightarrow> rat \<Rightarrow> rat option \<Rightarrow> s_element list \<Rightarrow>
     time_range list \<times> rat \<times> timeline_warning list \<Rightarrow>
     time_range list \<times> rat \<times> timeline_warning list" where
  "timeline_loop timescale pto periodDuration [] (timeline, lastEndTime, ws) =
     (timeline, lastEndTime, ws)"
| "timeline_loop timescale pto periodDuration (timePoint # rest) (timeline, lastEndTime, ws) =
     (let t = map_option (\<lambda>t. js_sub (of_nat t) pto) (attr_t timePoint)
      in case attr_d timePoint of
           None \<Rightarrow> (timeline, lastEndTime, ws @ [MissingDuration])
         | Some d \<Rightarrow>
             if d = 0 then (timeline, lastEndTime, ws @ [MissingDuration])
             else
               (let start = (case t of Some t' \<Rightarrow> t' | None \<Rightarrow> lastEndTime);
                    r = (case attr_r timePoint of None \<Rightarrow> 0 | Some r' \<Rightarrow> r')
                in case (if r < 0
                         then negative_repeat timescale periodDuration start d rest
                         else Inr r) of
                     Inl w \<Rightarrow> (timeline, lastEndTime, ws @ [w])
                   | Inr repeat \<Rightarrow>
                       (let stretch = (timeline \<noteq> [] \<and> start \<noteq> lastEndTime);
                            ws' = (if stretch \<and>
                                      \<bar>js_div (js_sub start lastEndTime) timescale\<bar>
                                        \<ge> GAP_OVERLAP_TOLERANCE_SECONDS
                                   then ws @ [LargeGapOverlap] else ws);
                            timeline' =
                              (if stretch
                               then butlast timeline
                                    @ [(last timeline)\<lparr>range_end := js_div start timescale\<rparr>]
                               else timeline);
                            (items, lastEndTime') =
                              emit_ranges (nat (repeat + 1)) start (of_nat d) timescale lastEndTime
                        in timeline_loop timescale pto periodDuration rest
                             (timeline' @ items, lastEndTime', ws'))))"

text \<open>\<open>createTimeline\<close>: the two leading \<open>assert\<close>s, then the loop from the empty timeline
  and \<open>lastEndTime = -unscaledPresentationTimeOffset\<close>.\<close>

definition createTimeline ::
  "s_element list \<Rightarrow> rat \<Rightarrow> rat \<Rightarrow> rat option \<Rightarrow>
     error + time_range list \<times> timeline_warning list" where
  "createTimeline timePoints timescale unscaledPresentationTimeOffset periodDuration =
     (if \<not> timescale > 0 then Inl AssertionError
      else if \<not> (case periodDuration of None \<Rightarrow> True | Some pd \<Rightarrow> pd > 0)
      then Inl AssertionError
      else (case timeline_loop timescale unscaledPresentationTimeOffset periodDuration
                   timePoints ([], - unscaledPresentationTimeOffset, []) of
              (timeline, lastEndTime, ws) \<Rightarrow> Inr (timeline, ws)))"

section \<open>Representation check (dash_parser.verifyRepresentation_)\<close>

text \<open>
  The fields of an inheritance frame that \<open>verifyRepresentation_\<close> reads and writes; the
  other fields are the record's extension.  A \<open>Segment*\<close> field is an XML element or
  \<open>null\<close>.  The function returns its verdict and leaves the frame updated.
\<close>

record 'e inheritance_frame =
  segmentBase :: "'e option"
  segmentList :: "'e option"
  segmentTemplate :: "'e option"
  contentType :: string

definition ContentType_TEXT :: string where
  "ContentType_TEXT = ''text''"

definition ContentType_APPLICATION :: string where
  "ContentType_APPLICATION = ''application''"

definition verifyRepresentation ::
  "('e, 'm) inheritance_frame_scheme \<Rightarrow> error + bool \<times> ('e, 'm) inheritance_frame_scheme" where
  "verifyRepresentation frame =
     (let n = (if segmentBase frame \<noteq> None then 1 else 0)
              + (if segmentList frame \<noteq> None then 1 else 0)
              + (if segmentTemplate frame \<noteq> None then 1 else (0 :: nat))
      in if n = 0
         then (if contentType frame = ContentType_TEXT
                  \<or> contentType frame = ContentType_APPLICATION
               then Inr (True, frame)
               else Inr (False, frame))
         else if n \<noteq> 1
         then (if segmentBase frame \<noteq> None
               then Inr (True, frame\<lparr>segmentList := None, segmentTemplate := None\<rparr>)
               else if segmentList frame = None then Inl AssertionError
               else Inr (True, frame\<lparr>segmentTemplate := None\<rparr>))
         else Inr (True, frame))"

text \<open>
  \<open>parseRepresentation_\<close> returns \<open>null\<close> (no stream) when the check fails; otherwise it
  goes on to build the stream from the checked frame.  That remainder of the function
  is the parameter \<open>build\<close>.
\<close>

definition parseRepresentation ::
  "(('e, 'm) inheritance_frame_scheme \<Rightarrow> error + 's option) \<Rightarrow>
     ('e, 'm) inheritance_frame_scheme \<Rightarrow> error + 's option" where
  "parseRepresentation build frame =
     (case verifyRepresentation frame of
        Inl e \<Rightarrow> Inl e
      | Inr (usable, frame') \<Rightarrow> if \<not> usable then Inr None else build frame')"

section \<open>ContentProtection (content_protection)\<close>

record init_data_override =
  initDataType :: string
  initData :: "byte list"
  keyId :: "string option"
  rawPssh :: "string option"

text \<open>A parsed ContentProtection element, as \<open>parseElement_\<close> returns it; \<open>node\<close> is the
  XML element.\<close>

record 'n cp_element =
  node :: 'n
  schemeUri :: string
  elem_keyId :: "string option"
  init :: "init_data_override list option"

record drm_info =
  keySystem :: string
  licenseServerUri :: string
  distinctiveIdentifierRequired :: bool
  persistentStateRequired :: bool
  audioRobustness :: string
  videoRobustness :: string
  serverCertificate :: "byte list option"
  serverCertificateUri :: string
  sessionType :: string
  drm_initData :: "init_data_override list"
  keyIds :: "string list"

record cp_context =
  defaultKeyId :: "string option"
  defaultInit :: "init_data_override list option"
  drmInfos :: "drm_info list"
  firstRepresentation :: bool

definition createDrmInfo :: "string \<Rightarrow> init_data_override list option \<Rightarrow> drm_info" where
  "createDrmInfo ks initd =
     \<lparr>keySystem = ks, licenseServerUri = [], distinctiveIdentifierRequired = False,
      persistentStateRequired = False, audioRobustness = [], videoRobustness = [],
      serverCertificate = None, serverCertificateUri = [], sessionType = [],
      drm_initData = (case initd of None \<Rightarrow> [] | Some ds \<Rightarrow> ds), keyIds = []\<rparr>"

definition MP4Protection :: string where
  "MP4Protection = ''urn:mpeg:dash:mp4protection:2011''"

definition ClearKeySchemeUri :: string where
  "ClearKeySchemeUri = ''urn:uuid:e2719d58-a985-b3c9-781a-b030af78d30e''"

definition keySystemByURI :: "(string \<times> string) list" where
  "keySystemByURI =
     [(''urn:uuid:1077efec-c0b2-4d02-ace3-3c1e52e2fb4b'', ''org.w3.clearkey''),
      (''urn:uuid:e2719d58-a985-b3c9-781a-b030af78d30e'', ''org.w3.clearkey''),
      (''urn:uuid:edef8ba9-79d6-4ace-a3c8-27dcd51d21ed'', ''com.widevine.alpha''),
      (''urn:uuid:9a04f079-9840-4286-ab92-e65be0885f95'', ''com.microsoft.playready''),
      (''urn:uuid:79f0049a-4098-8642-ab92-e65be0885f95'', ''com.microsoft.playready''),
      (''urn:uuid:f239e769-efa3-4850-9c16-a903c6932efb'', ''com.adobe.primetime'')]"

text \<open>
  What the functions below read from the XML node of an element is given by two
  parameters: \<open>pro_of node\<close>, the base64-decoded text of the node's \<open>mspr:pro\<close> child if
  it has one, and \<open>licenseUrlParsers\<close>, the table from key system to license URL parser.
\<close>

definition getInitDataFromPro ::
  "('n \<Rightarrow> byte list option) \<Rightarrow> 'n cp_element \<Rightarrow> error + init_data_override list option" where
  "getInitDataFromPro pro_of element =
     (case pro_of (node element) of
        None \<Rightarrow> Inr None
      | Some dat \<Rightarrow>
          then_do (createPssh dat
                     [0x9a, 0x04, 0xf0, 0x79, 0x98, 0x40, 0x42, 0x86,
                      0xab, 0x92, 0xe6, 0x5b, 0xe0, 0x88, 0x5f, 0x95] [] 0)
            (\<lambda>psshObj. Inr (Some [\<lparr>initDataType = ''cenc'', initData = psshObj,
                                    keyId = elem_keyId element, rawPssh = None\<rparr>])))"

definition getInitDataClearKey ::
  "'n cp_element \<Rightarrow> string list \<Rightarrow> error + init_data_override list option" where
  "getInitDataClearKey element kids =
     (if kids = [] then Inr None
      else
        then_do (createPssh []
                   [0x10, 0x77, 0xef, 0xec, 0xc0, 0xb2, 0x4d, 0x02,
                    0xac, 0xe3, 0x3c, 0x1e, 0x52, 0xe2, 0xfb, 0x4b] kids 1)
          (\<lambda>psshObj. Inr (Some [\<lparr>initDataType = ''cenc'', initData = psshObj,
                                  keyId = elem_keyId element, rawPssh = None\<rparr>])))"

text \<open>\<open>a || b\<close> on values that are an array or \<open>null\<close>: an array, even an empty one, is
  truthy.\<close>

definition or_else :: "'a option \<Rightarrow> 'a option \<Rightarrow> 'a option" where
  "or_else a b = (case a of None \<Rightarrow> b | Some x \<Rightarrow> Some x)"

fun convertElements ::
  "('n \<Rightarrow> byte list option) \<Rightarrow> (string \<Rightarrow> ('n cp_element \<Rightarrow> string) option) \<Rightarrow>
     init_data_override list option \<Rightarrow> 'n cp_element list \<Rightarrow> (string \<times> string) list \<Rightarrow>
     string list \<Rightarrow> error + drm_info list" where
  "convertElements pro_of licenseUrlParsers dflt [] keySystemsByURI kids = Inr []"
| "convertElements pro_of licenseUrlParsers dflt (element # elements) keySystemsByURI kids =
     (case (case map_of keySystemsByURI (schemeUri element) of
              None \<Rightarrow> Inr None
            | Some ks \<Rightarrow>
                if ks = [] then Inr None
                else if init element = Some [] then Inl AssertionError
                else
                  (case getInitDataFromPro pro_of element of
                     Inl e \<Rightarrow> Inl e
                   | Inr proInitData \<Rightarrow>
                       (case (if schemeUri element = ClearKeySchemeUri
                              then getInitDataClearKey element kids else Inr None) of
                          Inl e \<Rightarrow> Inl e
                        | Inr clearKeyInitData \<Rightarrow>
                            (let initd = or_else (init element)
                                           (or_else dflt (or_else proInitData clearKeyInitData));
                                 info = createDrmInfo ks initd
                             in Inr (Some (case licenseUrlParsers ks of
                                             None \<Rightarrow> info
                                           | Some licenseParser \<Rightarrow>
                                               info\<lparr>licenseServerUri := licenseParser element\<rparr>)))))) of
        Inl e \<Rightarrow> Inl e
      | Inr this \<Rightarrow>
          (case convertElements pro_of licenseUrlParsers dflt elements keySystemsByURI kids of
             Inl e \<Rightarrow> Inl e
           | Inr out \<Rightarrow> Inr ((case this of None \<Rightarrow> [] | Some info \<Rightarrow> [info]) @ out)))"

text \<open>The elements of a \<open>Set\<close> built from a list, in insertion order.\<close>

definition new_Set :: "'a list \<Rightarrow> 'a list" where
  "new_Set xs = foldl (\<lambda>acc x. if x \<in> set acc then acc else acc @ [x]) [] xs"

text \<open>The \<open>filter\<close> callback of \<open>parseFromAdaptationSet\<close>: it keeps the elements that are
  not MP4Protection and takes the default init data from those that are.\<close>

fun split_cenc ::
  "'n cp_element list \<Rightarrow> init_data_override list option \<Rightarrow>
     error + init_data_override list option \<times> 'n cp_element list" where
  "split_cenc [] dflt = Inr (dflt, [])"
| "split_cenc (elem # elems) dflt =
     (if schemeUri elem = MP4Protection
      then (if init elem = Some [] then Inl AssertionError
            else split_cenc elems (or_else (init elem) dflt))
      else (case split_cenc elems dflt of
              Inl e \<Rightarrow> Inl e
            | Inr (dflt', nonCenc) \<Rightarrow> Inr (dflt', elem # nonCenc)))"

text \<open>
  \<open>parseFromAdaptationSet\<close> from the parsed elements on (its first line,
  \<open>parseElements_(elems)\<close>, reads the XML).  In the branch for CENC-only protection the
  source calls \<open>ManifestParserUtils.createDrmInfo\<close>, a name that is not declared in the
  module: reaching that call raises a \<open>ReferenceError\<close>.  The key ID is written into the
  init data of the DRM infos; that these objects may be shared with \<open>defaultInit\<close> is not
  tracked.
\<close>

definition parseFromAdaptationSet ::
  "('n \<Rightarrow> byte list option) \<Rightarrow> (string \<Rightarrow> ('n cp_element \<Rightarrow> string) option) \<Rightarrow>
     'n cp_element list \<Rightarrow> bool \<Rightarrow> (string \<times> string) list \<Rightarrow> error + cp_context" where
  "parseFromAdaptationSet pro_of licenseUrlParsers parsed ignoreDrmInfo keySystemsByURI =
     (let kids = new_Set (List.map_filter elem_keyId parsed)
      in if length kids > 1 then Inl (Error DASH_CONFLICTING_KEY_IDS)
         else
           then_do (if \<not> ignoreDrmInfo
                    then then_do (split_cenc parsed None) (\<lambda>(dflt, parsedNonCenc).
                           if parsedNonCenc \<noteq> []
                           then then_do (convertElements pro_of licenseUrlParsers dflt
                                           parsedNonCenc keySystemsByURI kids)
                                  (\<lambda>infos. Inr (dflt, parsedNonCenc,
                                                 if infos = [] then [createDrmInfo [] dflt]
                                                 else infos))
                           else Inr (dflt, parsedNonCenc, []))
                    else Inr (None, [], [])) (\<lambda>(dflt, parsedNonCenc, infos).
           then_do (if parsed \<noteq> [] \<and> (ignoreDrmInfo \<or> parsedNonCenc = [])
                    then (if list_ex (\<lambda>ks. ks \<noteq> ''org.w3.clearkey'') (map snd keySystemsByURI)
                          then Inl ReferenceError else Inr [])
                    else Inr infos) (\<lambda>infos'.
             (let dfltKeyId = (case kids of [] \<Rightarrow> None
                               | k # _ \<Rightarrow> if k = [] then None else Some k)
              in Inr \<lparr>defaultKeyId = dfltKeyId,
                      defaultInit = dflt,
                      drmInfos =
                        (case dfltKeyId of
                           None \<Rightarrow> infos'
                         | Some k \<Rightarrow>
                             map (\<lambda>info. info\<lparr>drm_initData :=
                                    map (\<lambda>d. d\<lparr>keyId := Some k\<rparr>) (drm_initData info)\<rparr>) infos'),
                      firstRepresentation = True\<rparr>))))"

text \<open>\<open>parseFromRepresentation\<close>: the key ID it returns and the context as it leaves
  it.\<close>

definition parseFromRepresentation ::
  "('n \<Rightarrow> byte list option) \<Rightarrow> (string \<Rightarrow> ('n cp_element \<Rightarrow> string) option) \<Rightarrow>
     'n cp_element list \<Rightarrow> cp_context \<Rightarrow> bool \<Rightarrow> (string \<times> string) list \<Rightarrow>
     error + string option \<times> cp_context" where
  "parseFromRepresentation pro_of licenseUrlParsers parsed context ignoreDrmInfo keySystemsByURI =
     then_do (parseFromAdaptationSet pro_of licenseUrlParsers parsed ignoreDrmInfo
                keySystemsByURI) (\<lambda>repContext.
     then_do (if firstRepresentation context
              then (let asUnknown = (case drmInfos context of
                                       [info] \<Rightarrow> keySystem info = []
                                     | _ \<Rightarrow> False);
                        asUnencrypted = (drmInfos context = []);
                        repUnencrypted = (drmInfos repContext = [])
                    in Inr (context\<lparr>drmInfos :=
                                      (if asUnencrypted \<or> (asUnknown \<and> \<not> repUnencrypted)
                                       then drmInfos repContext else drmInfos context),
                                    firstRepresentation := False\<rparr>))
              else if drmInfos repContext \<noteq> []
              then (let kept = filter (\<lambda>asInfo. list_ex (\<lambda>repInfo.
                                         keySystem repInfo = keySystem asInfo)
                                         (drmInfos repContext))
                                 (drmInfos context)
                    in if kept = [] then Inl (Error DASH_NO_COMMON_KEY_SYSTEM)
                       else Inr (context\<lparr>drmInfos := kept\<rparr>))
              else Inr context) (\<lambda>context'.
       Inr (or_else (defaultKeyId repContext) (defaultKeyId context'), context')))"

section \<open>Variant selection by bandwidth tier (superparser.js, main loop)\<close>

text \<open>
  The main loop sorts the manifest's variants by ascending bandwidth, computes the pair
  \<open>(lowest, highest)\<close> from the configured tier name and keeps
  \<open>varaiantList.slice(lowest, highest + 1)\<close>.  \<open>parseInt(n / 3)\<close> on an array length
  is the integer quotient.  Any other tier name makes the process exit (\<open>None\<close>).
\<close>

record variant =
  bandwidth :: int
  audio_language :: string

definition tier_bounds :: "string \<Rightarrow> nat \<Rightarrow> (int \<times> int) option" where
  "tier_bounds conf_bandwidth n =
     (if conf_bandwidth = ''low'' then Some (0, int (n div 3))
      else if conf_bandwidth = ''mid'' then Some (int (n div 3) + 1, int (n div 3) * 2)
      else if conf_bandwidth = ''high'' then Some (int (n div 3) * 2 + 1, int n - 1)
      else None)"

text \<open>\<open>Array.prototype.slice(begin, end)\<close>: negative indices count from the end, both
  bounds are clamped to the array, an empty range gives the empty array.\<close>

definition js_slice :: "'a list \<Rightarrow> int \<Rightarrow> int \<Rightarrow> 'a list" where
  "js_slice xs b e =
     (let n = int (length xs);
          k = (if b < 0 then max (n + b) 0 else min b n);
          f = (if e < 0 then max (n + e) 0 else min e n)
      in take (nat (f - k)) (drop (nat k) xs))"

definition bandwidthFilteredList :: "string \<Rightarrow> variant list \<Rightarrow> variant list option" where
  "bandwidthFilteredList conf_bandwidth variants =
     (let varaiantList = sort_key bandwidth variants
      in case tier_bounds conf_bandwidth (length varaiantList) of
           None \<Rightarrow> None
         | Some (lowest, highest) \<Rightarrow> Some (js_slice varaiantList lowest (highest + 1)))"

section \<open>The rolling media playlist (segment_saver.download_segments)\<close>

text \<open>
  A media playlist template is an array of strings: the header written by
  \<open>superparser.js\<close>, whose last line is \<open>#EXT-X-MEDIA-SEQUENCE:n\<close>, followed by one string
  \<open>#EXTINF:duration,\<newline>uri\<close> per segment.  \<open>Header n\<close> and \<open>ExtInf duration uri\<close> stand for
  these strings; \<open>item.includes('#EXTINF:')\<close> holds for the second kind only, and
  \<open>oldItem.split('\<newline>').pop()\<close> is the \<open>uri\<close> (a file name has no line break).  The
  regular expression for \<open>#EXT-X-MEDIA-SEQUENCE:\<close> and digits matches a header and nothing
  else, so that \<open>regEx.exec(...)[0]\<close> raises a \<open>TypeError\<close> on any other first line.  The media sequence
  number is kept as a natural number (it stays far below \<open>2^53\<close>).
\<close>

datatype 'd playlist_item = Header nat | ExtInf 'd string

fun is_extinf :: "'d playlist_item \<Rightarrow> bool" where
  "is_extinf (Header n) = False"
| "is_extinf (ExtInf d u) = True"

text \<open>The state of one track: its playlist template (a module-level array of
  \<open>superparser.js\<close>, updated in place in every cycle) and the decrypted media files
  in the track's output directory.\<close>

record 'd track_state =
  template :: "'d playlist_item list"
  files :: "string set"

text \<open>The template as \<open>superparser.js\<close> creates it, and the output directory emptied
  at start-up.\<close>

definition initial_track :: "'d track_state" where
  "initial_track = \<lparr>template = [Header 0], files = {}\<rparr>"

text \<open>\<open>mediaPlaylistTemplate.splice(mediaPlaylistTemplate.indexOf(oldItem), 1)\<close> removes the
  first element equal to \<open>oldItem\<close>; when \<open>oldItem\<close> is \<open>undefined\<close> (\<open>shift\<close> of an
  empty list) the index is \<open>-1\<close> and the last element goes.\<close>

definition splice_indexOf :: "'a list \<Rightarrow> 'a option \<Rightarrow> 'a list" where
  "splice_indexOf xs oldItem = (case oldItem of None \<Rightarrow> butlast xs | Some x \<Rightarrow> remove1 x xs)"

text \<open>
  The playlist update after a successful decryption (from \<open>let newSegmentUri\<close> to the
  \<open>push\<close>): the new state and whether \<open>bufferFull\<close> was set.  \<open>fs.unlinkSync\<close> raises
  when the file does not exist.  The rewritten playlist file is the template itself.
\<close>

definition update_playlist ::
  "int \<Rightarrow> 'd \<Rightarrow> string \<Rightarrow> 'd track_state \<Rightarrow> error + 'd track_state \<times> bool" where
  "update_playlist maxSegmentNum segmentDuration nameOnly ts =
     (let newSegmentUri = nameOnly @ ''.mp4'';
          segmentTemplate = ExtInf segmentDuration newSegmentUri;
          segmentItemList = filter is_extinf (template ts)
      in if int (length segmentItemList) = maxSegmentNum
         then (let oldItem = (case segmentItemList of [] \<Rightarrow> None | x # _ \<Rightarrow> Some x);
                   spliced = splice_indexOf (template ts) oldItem
               in case oldItem of
                    None \<Rightarrow> Inl TypeError
                  | Some (Header n) \<Rightarrow> Inl TypeError
                  | Some (ExtInf d oldFilename) \<Rightarrow>
                      if oldFilename \<notin> files ts then Inl SystemError
                      else (case spliced of
                              Header oldSequenceNumber # items \<Rightarrow>
                                Inr (\<lparr>template = (Header (oldSequenceNumber + 1) # items)
                                                  @ [segmentTemplate],
                                      files = files ts - {oldFilename}\<rparr>, True)
                            | _ \<Rightarrow> Inl TypeError))
         else Inr (ts\<lparr>template := template ts @ [segmentTemplate]\<rparr>, False))"

text \<open>
  One pass of the inner loop (one track, one segment).  A segment is given by its file
  name after the renaming step (\<open>segmentName\<close>), that name without its extension
  (\<open>nameOnly\<close>), its duration, and what the two external steps answer: the status of
  \<open>mergeFiles\<close> and the exit code of the decrypt script, which on success has written
  \<open>nameOnly + ".mp4"\<close> to the track's output directory.
\<close>

record 'd segment =
  segmentName :: string
  nameOnly :: string
  segmentDuration :: 'd
  mergeStatus :: bool
  decryptCode :: int

definition initFile :: string where
  "initFile = ''init.mp4''"

definition process_segment ::
  "int \<Rightarrow> 'd segment \<Rightarrow> 'd track_state \<Rightarrow> error + 'd track_state \<times> bool" where
  "process_segment maxSegmentNum seg ts =
     (if segmentName seg \<noteq> initFile
      then (if mergeStatus seg
            then (if decryptCode seg \<noteq> 0 then Inl (Error SEGMENT_MANIPULATION_FAILED)
                  else update_playlist maxSegmentNum (segmentDuration seg) (nameOnly seg)
                         (ts\<lparr>files := insert (nameOnly seg @ ''.mp4'') (files ts)\<rparr>))
            else Inl (Error SEGMENT_MANIPULATION_FAILED))
      else Inr (ts, False))"

text \<open>The segments processed for one track, one after the other, from the creation of
  its playlist on: the track's share of all cycles so far.\<close>

fun run_track :: "int \<Rightarrow> 'd segment list \<Rightarrow> 'd track_state \<Rightarrow> error + 'd track_state" where
  "run_track maxSegmentNum [] ts = Inr ts"
| "run_track maxSegmentNum (seg # segs) ts =
     (case process_segment maxSegmentNum seg ts of
        Inl e \<Rightarrow> Inl e
      | Inr (ts', bufferFull) \<Rightarrow> run_track maxSegmentNum segs ts')"

text \<open>
  \<open>download_segments\<close>: the outer loop runs over the audio list and takes the video
  segment of the same index; a missing video segment is \<open>undefined\<close> and
  \<open>segmentUrl.split\<close> raises a \<open>TypeError\<close>.  Pacing (the sleep) and the clean-up of the
  working directories do not touch the playlists.
\<close>

record 'd saver_state =
  audio :: "'d track_state"
  video :: "'d track_state"

fun download_segments ::
  "int \<Rightarrow> 'd segment list \<Rightarrow> 'd segment list \<Rightarrow> 'd saver_state \<Rightarrow> error + 'd saver_state" where
  "download_segments maxSegmentNum [] videoList st = Inr st"
| "download_segments maxSegmentNum (a # audioList) videoList st =
     (case process_segment maxSegmentNum a (audio st) of
        Inl e \<Rightarrow> Inl e
      | Inr (ta, fullA) \<Rightarrow>
          (case videoList of
             [] \<Rightarrow> Inl TypeError
           | v # videoList' \<Rightarrow>
               (case process_segment maxSegmentNum v (video st) of
                  Inl e \<Rightarrow> Inl e
                | Inr (tv, fullV) \<Rightarrow>
                    download_segments maxSegmentNum audioList videoList'
                      \<lparr>audio = ta, video = tv\<rparr>)))"

text \<open>The main loop of \<open>superparser.js\<close> as far as the playlists go: one
  \<open>download_segments\<close> per cycle on the same two templates.\<close>

fun run_cycles ::
  "int \<Rightarrow> ('d segment list \<times> 'd segment list) list \<Rightarrow> 'd saver_state \<Rightarrow> error + 'd saver_state" where
  "run_cycles maxSegmentNum [] st = Inr st"
| "run_cycles maxSegmentNum ((audioList, videoList) # cycles) st =
     (case download_segments maxSegmentNum audioList videoList st of
        Inl e \<Rightarrow> Inl e
      | Inr st' \<Rightarrow> run_cycles maxSegmentNum cycles st')"

text \<open>The \<open>#EXTINF\<close> entries of a template, its media sequence number, and the number of
  segments of a list that reach the playlist (all but init segments).\<close>

definition entries :: "'d track_state \<Rightarrow> 'd playlist_item list" where
  "entries ts = filter is_extinf (template ts)"

definition media_sequence :: "'d track_state \<Rightarrow> nat option" where
  "media_sequence ts = (case template ts of Header n # items \<Rightarrow> Some n | _ \<Rightarrow> None)"

definition appended :: "'d segment list \<Rightarrow> nat" where
  "appended segs = length (filter (\<lambda>seg. segmentName seg \<noteq> initFile) segs)"

section \<open>Example inputs and byte layouts\<close>

definition five_variants :: "variant list" where
  "five_variants =
     [\<lparr>bandwidth = 100, audio_language = ''en''\<rparr>,
      \<lparr>bandwidth = 200, audio_language = ''en''\<rparr>,
      \<lparr>bandwidth = 300, audio_language = ''en''\<rparr>,
      \<lparr>bandwidth = 400, audio_language = ''en''\<rparr>,
      \<lparr>bandwidth = 500, audio_language = ''en''\<rparr>]"

definition two_sources_frame :: "nat inheritance_frame" where
  "two_sources_frame =
     \<lparr>segmentBase = Some 1, segmentList = Some 2, segmentTemplate = None,
      contentType = ''video''\<rparr>"

definition no_source_frame :: "nat inheritance_frame" where
  "no_source_frame =
     \<lparr>segmentBase = None, segmentList = None, segmentTemplate = None,
      contentType = ''video''\<rparr>"

definition frame_as_stream :: "nat inheritance_frame \<Rightarrow> error + nat inheritance_frame option" where
  "frame_as_stream frame = Inr (Some frame)"

definition widevine_element :: "unit cp_element" where
  "widevine_element =
     \<lparr>node = (), schemeUri = ''urn:uuid:edef8ba9-79d6-4ace-a3c8-27dcd51d21ed'',
      elem_keyId = None, init = None\<rparr>"

definition playready_element :: "unit cp_element" where
  "playready_element =
     \<lparr>node = (), schemeUri = ''urn:uuid:9a04f079-9840-4286-ab92-e65be0885f95'',
      elem_keyId = None, init = None\<rparr>"

definition no_pro :: "unit \<Rightarrow> byte list option" where
  "no_pro n = None"

definition no_license_parsers :: "string \<Rightarrow> (unit cp_element \<Rightarrow> string) option" where
  "no_license_parsers ks = None"

definition widevine_info :: drm_info where
  "widevine_info = createDrmInfo ''com.widevine.alpha'' None"

definition playready_info :: drm_info where
  "playready_info = createDrmInfo ''com.microsoft.playready'' None"

definition context_of :: "drm_info list \<Rightarrow> bool \<Rightarrow> cp_context" where
  "context_of infos first =
     \<lparr>defaultKeyId = None, defaultInit = None, drmInfos = infos, firstRepresentation = first\<rparr>"

definition reader_of :: "byte list \<Rightarrow> bool \<Rightarrow> nat \<Rightarrow> data_view_reader" where
  "reader_of bs le pos = \<lparr>dataView = new_Uint8Array bs, littleEndian = le, position = pos\<rparr>"

definition single_S :: "s_element list" where
  "single_S = [\<lparr>attr_t = Some 0, attr_d = Some 10, attr_r = Some (- 1)\<rparr>]"

definition single_S_timeline :: "time_range list" where
  "single_S_timeline =
     [\<lparr>range_start = 0, range_end = 10, unscaledStart = 0\<rparr>,
      \<lparr>range_start = 10, range_end = 20, unscaledStart = 10\<rparr>,
      \<lparr>range_start = 20, range_end = 30, unscaledStart = 20\<rparr>,
      \<lparr>range_start = 30, range_end = 40, unscaledStart = 30\<rparr>,
      \<lparr>range_start = 40, range_end = 50, unscaledStart = 40\<rparr>,
      \<lparr>range_start = 50, range_end = 60, unscaledStart = 50\<rparr>]"

text \<open>A first \<open>S\<close> element of two segments, followed by a last one with \<open>r = -1\<close> and no
  \<open>t\<close>.\<close>

definition two_S :: "s_element list" where
  "two_S = [\<lparr>attr_t = Some 0, attr_d = Some 5, attr_r = Some 1\<rparr>,
            \<lparr>attr_t = None, attr_d = Some 10, attr_r = Some (- 1)\<rparr>]"

definition two_S_timeline :: "time_range list" where
  "two_S_timeline =
     [\<lparr>range_start = 0, range_end = 5, unscaledStart = 0\<rparr>,
      \<lparr>range_start = 5, range_end = 10, unscaledStart = 5\<rparr>,
      \<lparr>range_start = 10, range_end = 20, unscaledStart = 10\<rparr>,
      \<lparr>range_start = 20, range_end = 30, unscaledStart = 20\<rparr>,
      \<lparr>range_start = 30, range_end = 40, unscaledStart = 30\<rparr>,
      \<lparr>range_start = 40, range_end = 50, unscaledStart = 40\<rparr>,
      \<lparr>range_start = 50, range_end = 60, unscaledStart = 50\<rparr>]"

text \<open>Two \<open>S\<close> elements at timescale 1000 with a gap of one unit between them.\<close>

definition gap_S :: "s_element list" where
  "gap_S = [\<lparr>attr_t = Some 0, attr_d = Some 10, attr_r = Some 1\<rparr>,
            \<lparr>attr_t = Some 21, attr_d = Some 10, attr_r = None\<rparr>]"

definition gap_timeline :: "time_range list" where
  "gap_timeline =
     [\<lparr>range_start = 0, range_end = js_div 10 1000, unscaledStart = 0\<rparr>,
      \<lparr>range_start = js_div 10 1000, range_end = js_div 21 1000, unscaledStart = 10\<rparr>,
      \<lparr>range_start = js_div 21 1000, range_end = js_div 31 1000, unscaledStart = 21\<rparr>]"

definition seg_of :: "string \<Rightarrow> nat segment" where
  "seg_of name =
     \<lparr>segmentName = name @ ''.m4s'', nameOnly = name, segmentDuration = 6,
      mergeStatus = True, decryptCode = 0\<rparr>"

definition init_seg :: "nat segment" where
  "init_seg =
     \<lparr>segmentName = ''init.mp4'', nameOnly = ''init'', segmentDuration = 0,
      mergeStatus = True, decryptCode = 0\<rparr>"

definition five_segments :: "nat segment list" where
  "five_segments = [init_seg, seg_of ''1'', seg_of ''2'', seg_of ''3'', seg_of ''4'', seg_of ''5'']"

definition after_five :: "nat track_state" where
  "after_five =
     \<lparr>template = [Header 2, ExtInf 6 ''3.mp4'', ExtInf 6 ''4.mp4'', ExtInf 6 ''5.mp4''],
      files = {''3.mp4'', ''4.mp4'', ''5.mp4''}\<rparr>"

text \<open>Two \<open>pssh\<close> boxes of 32 bytes each, without key IDs and with an empty payload: one of
  version 2 followed by one of version 0.\<close>

definition widevine_system_id :: "byte list" where
  "widevine_system_id =
     [0xed, 0xef, 0x8b, 0xa9, 0x79, 0xd6, 0x4a, 0xce, 0xa3, 0xc8, 0x27, 0xdc, 0xd5, 0x1d, 0x21, 0xed]"

definition pssh_v2_box :: "byte list" where
  "pssh_v2_box = [0, 0, 0, 32, 112, 115, 115, 104, 2, 0, 0, 0] @ widevine_system_id @ [0, 0, 0, 0]"

definition pssh_v0_box :: "byte list" where
  "pssh_v0_box = [0, 0, 0, 32, 112, 115, 115, 104, 0, 0, 0, 0] @ widevine_system_id @ [0, 0, 0, 0]"

definition empty_pssh :: pssh where
  "empty_pssh = \<lparr>systemIds = [], cencKeyIds = [], data = []\<rparr>"

definition two_pssh_boxes :: data_view_reader where
  "two_pssh_boxes = new_data_view_reader (new_Uint8Array (pssh_v2_box @ pssh_v0_box)) False"

text \<open>The bytes of a version 1 \<open>pssh\<close> box: size, type \<open>pssh\<close>, version and flags, system ID,
  number of key IDs, key IDs of 16 bytes each, payload length and payload.\<close>

definition pssh_v1_bytes :: "byte list \<Rightarrow> byte list \<Rightarrow> string list \<Rightarrow> byte list" where
  "pssh_v1_bytes dat systemId keys =
     be32 (36 + 16 * length keys + length dat) @ be32 0x70737368 @ be32 0x01000000
       @ systemId @ be32 (length keys) @ concat (map fromHex keys)
       @ be32 (length dat) @ dat"

text \<open>Two key IDs of 32 hexadecimal characters, the first written in upper case.\<close>

definition upper_case_key_id :: string where
  "upper_case_key_id = ''ABCDEF0123456789ABCDEF0123456789''"

definition lower_case_key_id :: string where
  "lower_case_key_id = ''00112233445566778899aabbccddeeff''"









section \<open>Properties: variant selection\<close>

lemma sort_key_sorted_id: "sorted (map f xs) \<Longrightarrow> sort_key f xs = xs"
  by (induction xs) (auto simp: insort_is_Cons)

lemma length_five: "length vs = 5 \<Longrightarrow> \<exists>a b c d e. vs = [a, b, c, d, e]"
  by (auto simp: length_Suc_conv eval_nat_numeral)

text \<open>
  C3, as stated: of five variants in ascending bandwidth the tier \<open>mid\<close> selects the
  indices 2 to 3 and the tier \<open>high\<close> the index 4.  The code computes the upper bound
  of \<open>mid\<close> as \<open>parseInt(n / 3) * 2\<close>, which is 2 for five variants: \<open>mid\<close> selects index
  2 alone and \<open>high\<close> the indices 3 and 4.
\<close>

theorem bandwidth_tiers_counterexample:
  "bandwidthFilteredList ''mid'' five_variants \<noteq> Some [five_variants ! 2, five_variants ! 3]
   \<and> bandwidthFilteredList ''high'' five_variants \<noteq> Some [five_variants ! 4]"
  by (simp add: bandwidthFilteredList_def five_variants_def tier_bounds_def js_slice_def
        Let_def)

text \<open>
  C3, amended: for five variants in ascending bandwidth the tier \<open>low\<close> selects the
  indices 0 to 1, \<open>mid\<close> the index 2 and \<open>high\<close> the indices 3 to 4; for \<open>n\<close> variants
  the tiers are \<open>[0, n div 3]\<close>, \<open>[n div 3 + 1, 2 * (n div 3)]\<close> and
  \<open>[2 * (n div 3) + 1, n - 1]\<close>.
\<close>

theorem bandwidth_tiers_of_five:
  assumes "length vs = 5" and "sorted (map bandwidth vs)"
  shows "bandwidthFilteredList ''low'' vs = Some [vs ! 0, vs ! 1]
         \<and> bandwidthFilteredList ''mid'' vs = Some [vs ! 2]
         \<and> bandwidthFilteredList ''high'' vs = Some [vs ! 3, vs ! 4]
         \<and> tier_bounds ''low'' n = Some (0, int (n div 3))
         \<and> tier_bounds ''mid'' n = Some (int (n div 3) + 1, 2 * int (n div 3))
         \<and> tier_bounds ''high'' n = Some (2 * int (n div 3) + 1, int n - 1)"
proof -
  from assms(1) obtain a b c d e where vs: "vs = [a, b, c, d, e]"
    using length_five by blast
  have sorted_already: "sort_key bandwidth vs = vs"
    using assms(2) by (rule sort_key_sorted_id)
  have "bandwidthFilteredList ''low'' vs = Some [vs ! 0, vs ! 1]"
    unfolding bandwidthFilteredList_def sorted_already
    by (simp add: vs tier_bounds_def js_slice_def Let_def)
  moreover have "bandwidthFilteredList ''mid'' vs = Some [vs ! 2]"
    unfolding bandwidthFilteredList_def sorted_already
    by (simp add: vs tier_bounds_def js_slice_def Let_def)
  moreover have "bandwidthFilteredList ''high'' vs = Some [vs ! 3, vs ! 4]"
    unfolding bandwidthFilteredList_def sorted_already
    by (simp add: vs tier_bounds_def js_slice_def Let_def)
  ultimately show ?thesis
    by (simp add: tier_bounds_def)
qed

theorem bandwidth_tiers_of_five_witness:
  "bandwidthFilteredList ''low'' five_variants = Some [five_variants ! 0, five_variants ! 1]
   \<and> bandwidthFilteredList ''mid'' five_variants = Some [five_variants ! 2]
   \<and> bandwidthFilteredList ''high'' five_variants = Some [five_variants ! 3, five_variants ! 4]
   \<and> tier_bounds ''mid'' 5 = Some (2, 2)"
proof -
  have len: "length five_variants = 5"
    by (simp add: five_variants_def)
  have asc: "sorted (map bandwidth five_variants)"
    by (simp add: five_variants_def)
  show ?thesis
    using bandwidth_tiers_of_five [OF len asc, of 5] by simp
qed

section \<open>Properties: representations and their segment sources\<close>

text \<open>
  C6, as stated: a representation that is neither text nor application and whose frame
  carries two or more of SegmentBase, SegmentList and SegmentTemplate is rejected and
  contributes no stream.  A video frame with a SegmentBase and a SegmentList passes the
  check, which keeps its SegmentBase, and \<open>parseRepresentation_\<close> goes on to build the
  stream.
\<close>

theorem two_sources_counterexample:
  "verifyRepresentation two_sources_frame =
     Inr (True, two_sources_frame\<lparr>segmentList := None, segmentTemplate := None\<rparr>)
   \<and> parseRepresentation frame_as_stream two_sources_frame \<noteq> Inr None"
  by (simp add: verifyRepresentation_def parseRepresentation_def two_sources_frame_def
        frame_as_stream_def Let_def)

text \<open>
  C6, amended: a representation that is neither text nor application and whose frame
  carries none of SegmentBase, SegmentList and SegmentTemplate is rejected and
  contributes no stream.  A frame (of any content type) that carries two or more of
  them is not rejected: the check keeps SegmentBase if present, else SegmentList,
  clears the others, and the stream is built from that frame.
\<close>

theorem verifyRepresentation_sources:
  "(contentType frame \<noteq> ContentType_TEXT \<longrightarrow> contentType frame \<noteq> ContentType_APPLICATION \<longrightarrow>
      segmentBase frame = None \<longrightarrow> segmentList frame = None \<longrightarrow> segmentTemplate frame = None \<longrightarrow>
        verifyRepresentation frame = Inr (False, frame)
        \<and> parseRepresentation build frame = Inr None)
   \<and> (segmentBase frame \<noteq> None \<longrightarrow> segmentList frame \<noteq> None \<or> segmentTemplate frame \<noteq> None \<longrightarrow>
        verifyRepresentation frame =
          Inr (True, frame\<lparr>segmentList := None, segmentTemplate := None\<rparr>)
        \<and> parseRepresentation build frame =
            build (frame\<lparr>segmentList := None, segmentTemplate := None\<rparr>))
   \<and> (segmentBase frame = None \<longrightarrow> segmentList frame \<noteq> None \<longrightarrow> segmentTemplate frame \<noteq> None \<longrightarrow>
        verifyRepresentation frame = Inr (True, frame\<lparr>segmentTemplate := None\<rparr>)
        \<and> parseRepresentation build frame = build (frame\<lparr>segmentTemplate := None\<rparr>))"
  by (auto simp: verifyRepresentation_def parseRepresentation_def Let_def)

theorem verifyRepresentation_sources_witness:
  "verifyRepresentation no_source_frame = Inr (False, no_source_frame)
   \<and> parseRepresentation frame_as_stream no_source_frame = Inr None
   \<and> parseRepresentation frame_as_stream two_sources_frame =
       Inr (Some (two_sources_frame\<lparr>segmentList := None, segmentTemplate := None\<rparr>))"
  using verifyRepresentation_sources [of no_source_frame frame_as_stream]
        verifyRepresentation_sources [of two_sources_frame frame_as_stream]
  by (simp add: no_source_frame_def two_sources_frame_def ContentType_TEXT_def
        ContentType_APPLICATION_def frame_as_stream_def)

section \<open>Properties: ContentProtection at the Representation level\<close>

lemma adaptation_set_widevine_playready:
  "parseFromAdaptationSet no_pro no_license_parsers [widevine_element, playready_element]
     False keySystemByURI
   = Inr (context_of [widevine_info, playready_info] True)"
  by (simp add: parseFromAdaptationSet_def new_Set_def 
        widevine_element_def playready_element_def MP4Protection_def keySystemByURI_def
        getInitDataFromPro_def no_pro_def ClearKeySchemeUri_def or_else_def
        no_license_parsers_def context_of_def widevine_info_def playready_info_def)

lemma representation_widevine:
  "parseFromAdaptationSet no_pro no_license_parsers [widevine_element] False keySystemByURI
   = Inr (context_of [widevine_info] True)"
  by (simp add: parseFromAdaptationSet_def new_Set_def 
        widevine_element_def MP4Protection_def keySystemByURI_def
        getInitDataFromPro_def no_pro_def ClearKeySchemeUri_def or_else_def
        no_license_parsers_def context_of_def widevine_info_def)

lemma representation_playready:
  "parseFromAdaptationSet no_pro no_license_parsers [playready_element] False keySystemByURI
   = Inr (context_of [playready_info] True)"
  by (simp add: parseFromAdaptationSet_def new_Set_def 
        playready_element_def MP4Protection_def keySystemByURI_def
        getInitDataFromPro_def no_pro_def ClearKeySchemeUri_def or_else_def
        no_license_parsers_def context_of_def playready_info_def)

lemma example_key_systems:
  "keySystem widevine_info = ''com.widevine.alpha''"
  "keySystem playready_info = ''com.microsoft.playready''"
  by (simp_all add: widevine_info_def playready_info_def createDrmInfo_def)

text \<open>
  C2, as stated: with the AdaptationSet at \<open>{Widevine, PlayReady}\<close>, a first
  Representation that lists only Widevine leaves the context at \<open>{Widevine}\<close>, and a
  second one that lists only PlayReady fails with \<open>DASH_NO_COMMON_KEY_SYSTEM\<close>.  The
  first Representation replaces the context's DRM infos only when the AdaptationSet is
  unencrypted or unknown; here the context stays at both key systems, and the second
  Representation narrows it to PlayReady without an error.
\<close>

theorem first_representation_counterexample:
  "parseFromAdaptationSet no_pro no_license_parsers [widevine_element, playready_element]
     False keySystemByURI
     = Inr (context_of [widevine_info, playready_info] True)
   \<and> parseFromRepresentation no_pro no_license_parsers [widevine_element]
       (context_of [widevine_info, playready_info] True) False keySystemByURI
     = Inr (None, context_of [widevine_info, playready_info] False)
   \<and> map keySystem (drmInfos (context_of [widevine_info, playready_info] False))
     = [''com.widevine.alpha'', ''com.microsoft.playready'']
   \<and> parseFromRepresentation no_pro no_license_parsers [playready_element]
       (context_of [widevine_info, playready_info] False) False keySystemByURI
     = Inr (None, context_of [playready_info] False)"
proof -
  have first: "parseFromRepresentation no_pro no_license_parsers [widevine_element]
       (context_of [widevine_info, playready_info] True) False keySystemByURI
     = Inr (None, context_of [widevine_info, playready_info] False)"
    by (simp add: parseFromRepresentation_def representation_widevine)
       (simp add: context_of_def or_else_def)
  have second: "parseFromRepresentation no_pro no_license_parsers [playready_element]
       (context_of [widevine_info, playready_info] False) False keySystemByURI
     = Inr (None, context_of [playready_info] False)"
    by (simp add: parseFromRepresentation_def representation_playready)
       (simp add: context_of_def or_else_def example_key_systems)
  show ?thesis
    using adaptation_set_widevine_playready first second
    by (simp add: context_of_def example_key_systems)
qed

text \<open>
  C2, amended: the first Representation of an AdaptationSet replaces the context's DRM
  infos by its own when the AdaptationSet has none, or has a single one without key
  system while the Representation has some, and otherwise leaves them as they are; with
  the AdaptationSet at \<open>{Widevine, PlayReady}\<close> and a first Representation that lists only
  Widevine the context stays at \<open>{Widevine, PlayReady}\<close>.  Every later Representation
  that has DRM infos keeps of the context's DRM infos those whose key system it lists
  too, and fails with \<open>DASH_NO_COMMON_KEY_SYSTEM\<close> when none is left.
\<close>

theorem parseFromRepresentation_key_systems:
  assumes "parseFromAdaptationSet pro_of lic parsed ign tbl = Inr repContext"
  shows "(firstRepresentation context \<longrightarrow>
            parseFromRepresentation pro_of lic parsed context ign tbl =
              Inr (or_else (defaultKeyId repContext) (defaultKeyId context),
                   context\<lparr>drmInfos :=
                     (if drmInfos context = []
                         \<or> (length (drmInfos context) = 1
                            \<and> keySystem (hd (drmInfos context)) = []
                            \<and> drmInfos repContext \<noteq> [])
                      then drmInfos repContext else drmInfos context),
                     firstRepresentation := False\<rparr>))
         \<and> (\<not> firstRepresentation context \<longrightarrow> drmInfos repContext \<noteq> [] \<longrightarrow>
              parseFromRepresentation pro_of lic parsed context ign tbl =
                (if \<forall>asInfo \<in> set (drmInfos context).
                      keySystem asInfo \<notin> keySystem ` set (drmInfos repContext)
                 then Inl (Error DASH_NO_COMMON_KEY_SYSTEM)
                 else Inr (or_else (defaultKeyId repContext) (defaultKeyId context),
                           context\<lparr>drmInfos :=
                             filter (\<lambda>asInfo. keySystem asInfo
                                       \<in> keySystem ` set (drmInfos repContext))
                               (drmInfos context)\<rparr>)))"
proof -
  have member: "list_ex (\<lambda>repInfo. keySystem repInfo = k) infos \<longleftrightarrow> k \<in> keySystem ` set infos"
    for k infos
    by (auto simp: list_ex_iff)
  have first_case: "(case infos of [info] \<Rightarrow> keySystem info = [] | _ \<Rightarrow> False)
      \<longleftrightarrow> length infos = 1 \<and> keySystem (hd infos) = []" for infos :: "drm_info list"
    by (cases infos) (auto split: list.splits)
  show ?thesis
    unfolding parseFromRepresentation_def assms
    by (auto simp: Let_def member first_case filter_empty_conv)
qed

theorem parseFromRepresentation_key_systems_witness:
  "parseFromRepresentation no_pro no_license_parsers [widevine_element]
       (context_of [widevine_info, playready_info] True) False keySystemByURI
     = Inr (None, context_of [widevine_info, playready_info] False)
   \<and> parseFromRepresentation no_pro no_license_parsers [playready_element]
       (context_of [widevine_info, playready_info] False) False keySystemByURI
     = Inr (None, context_of [playready_info] False)
   \<and> parseFromRepresentation no_pro no_license_parsers [widevine_element]
       (context_of [playready_info] False) False keySystemByURI
     = Inl (Error DASH_NO_COMMON_KEY_SYSTEM)"
  using parseFromRepresentation_key_systems [OF representation_widevine,
          of "context_of [widevine_info, playready_info] True"]
        parseFromRepresentation_key_systems [OF representation_playready,
          of "context_of [widevine_info, playready_info] False"]
        parseFromRepresentation_key_systems [OF representation_widevine,
          of "context_of [playready_info] False"]
  by (simp add: context_of_def or_else_def example_key_systems)

section \<open>Properties: the binary reader\<close>

lemma le_nat_append: "le_nat (xs @ ys) = le_nat xs + 256 ^ length xs * le_nat ys"
  by (induction xs) (simp_all add: algebra_simps)

lemma le_nat_bound: "le_nat bs < 256 ^ length bs"
proof (induction bs)
  case Nil
  show ?case by simp
next
  case (Cons b bs)
  have "unat b < 256" using unsigned_less [of b, where ?'a = nat] by simp
  with Cons show ?case by simp
qed

lemma be_nat_bound: "be_nat bs < 256 ^ length bs"
  using le_nat_bound [of "rev bs"] by (simp add: be_nat_def)

lemma be_nat_append: "be_nat (xs @ ys) = be_nat xs * 256 ^ length ys + be_nat ys"
  by (simp add: be_nat_def le_nat_append)

text \<open>
  C7: at a position with at least 8 bytes left, \<open>readUint64\<close> returns
  \<open>high * 2^32 + low\<close>, where \<open>high\<close> and \<open>low\<close> are the two 32-bit words in the reader's
  byte order (together the 64-bit number of the 8 bytes), and fails with
  \<open>JS_INTEGER_OVERFLOW\<close> exactly when \<open>high > 0x1FFFFF\<close>; with fewer than 8 bytes left it
  fails with \<open>BUFFER_READ_OUT_OF_BOUNDS\<close>.
\<close>

theorem readUint64_value:
  "(position r + 8 \<le> byteLength (dataView r) \<longrightarrow>
      (let bs = take 8 (drop (position r) (content (dataView r)));
           high = (if littleEndian r then le_nat (drop 4 bs) else be_nat (take 4 bs));
           low = (if littleEndian r then le_nat (take 4 bs) else be_nat (drop 4 bs))
       in readUint64 r =
            (if high > 0x1FFFFF then Inl (Error JS_INTEGER_OVERFLOW)
             else Inr (high * 2 ^ 32 + low, r\<lparr>position := position r + 8\<rparr>))
          \<and> high < 2 ^ 32 \<and> low < 2 ^ 32
          \<and> high * 2 ^ 32 + low = (if littleEndian r then le_nat bs else be_nat bs)))
   \<and> (position r + 8 > byteLength (dataView r) \<longrightarrow>
        readUint64 r = Inl (Error BUFFER_READ_OUT_OF_BOUNDS))"
proof (intro conjI impI)
  assume short: "byteLength (dataView r) < position r + 8"
  show "readUint64 r = Inl (Error BUFFER_READ_OUT_OF_BOUNDS)"
    using short by (simp add: readUint64_def getUint_def outOfBounds_def Let_def)
next
  assume enough: "position r + 8 \<le> byteLength (dataView r)"
  define c where "c = content (dataView r)"
  define bs where "bs = take 8 (drop (position r) c)"
  have len: "length bs = 8"
    using enough by (simp add: bs_def c_def byteLength_def)
  have first: "take 4 (drop (position r) c) = take 4 bs"
    by (simp add: bs_def)
  have second: "take 4 (drop (position r + 4) c) = drop 4 bs"
    by (simp add: bs_def drop_take add.commute)
  have split: "bs = take 4 bs @ drop 4 bs" by simp
  have l1: "length (take 4 bs) = 4" and l2: "length (drop 4 bs) = 4"
    using len by simp_all
  have b1: "le_nat (take 4 bs) < 2 ^ 32" "be_nat (take 4 bs) < 2 ^ 32"
    using le_nat_bound [of "take 4 bs"] be_nat_bound [of "take 4 bs"] l1 by simp_all
  have b2: "le_nat (drop 4 bs) < 2 ^ 32" "be_nat (drop 4 bs) < 2 ^ 32"
    using le_nat_bound [of "drop 4 bs"] be_nat_bound [of "drop 4 bs"] l2 by simp_all
  have le_all: "le_nat bs = le_nat (take 4 bs) + 2 ^ 32 * le_nat (drop 4 bs)"
    using le_nat_append [of "take 4 bs" "drop 4 bs"] l1 by simp
  have be_all: "be_nat bs = be_nat (take 4 bs) * 2 ^ 32 + be_nat (drop 4 bs)"
    using be_nat_append [of "take 4 bs" "drop 4 bs"] l2 by simp
  have rd: "readUint64 r =
      (if (if littleEndian r then le_nat (drop 4 bs) else be_nat (take 4 bs)) > 0x1FFFFF
       then Inl (Error JS_INTEGER_OVERFLOW)
       else Inr ((if littleEndian r then le_nat (drop 4 bs) else be_nat (take 4 bs)) * 2 ^ 32
                 + (if littleEndian r then le_nat (take 4 bs) else be_nat (drop 4 bs)),
                 r\<lparr>position := position r + 8\<rparr>))"
    using enough
    by (simp add: readUint64_def getUint_def Let_def first second c_def [symmetric])
  show "let bs = take 8 (drop (position r) (content (dataView r)));
           high = (if littleEndian r then le_nat (drop 4 bs) else be_nat (take 4 bs));
           low = (if littleEndian r then le_nat (take 4 bs) else be_nat (drop 4 bs))
       in readUint64 r =
            (if high > 0x1FFFFF then Inl (Error JS_INTEGER_OVERFLOW)
             else Inr (high * 2 ^ 32 + low, r\<lparr>position := position r + 8\<rparr>))
          \<and> high < 2 ^ 32 \<and> low < 2 ^ 32
          \<and> high * 2 ^ 32 + low = (if littleEndian r then le_nat bs else be_nat bs)"
    unfolding Let_def c_def [symmetric] bs_def [symmetric]
    using rd b1 b2 le_all be_all by simp
qed

theorem readUint64_value_witness:
  "readUint64 (reader_of [0, 0, 0, 1, 0, 0, 0, 2, 9] False 0)
     = Inr (4294967298, reader_of [0, 0, 0, 1, 0, 0, 0, 2, 9] False 8)
   \<and> readUint64 (reader_of [2, 0, 0, 0, 1, 0, 0, 0, 9] True 0)
     = Inr (4294967298, reader_of [2, 0, 0, 0, 1, 0, 0, 0, 9] True 8)
   \<and> readUint64 (reader_of [0, 0x20, 0, 0, 0, 0, 0, 0] False 0) = Inl (Error JS_INTEGER_OVERFLOW)
   \<and> readUint64 (reader_of [0, 0, 0, 1, 0, 0, 0, 2, 9] False 2) = Inl (Error BUFFER_READ_OUT_OF_BOUNDS)"
  using readUint64_value [of "reader_of [0, 0, 0, 1, 0, 0, 0, 2, 9] False 0"]
        readUint64_value [of "reader_of [2, 0, 0, 0, 1, 0, 0, 0, 9] True 0"]
        readUint64_value [of "reader_of [0, 0x20, 0, 0, 0, 0, 0, 0] False 0"]
        readUint64_value [of "reader_of [0, 0, 0, 1, 0, 0, 0, 2, 9] False 2"]
  by (simp add: reader_of_def new_Uint8Array_def byteLength_def be_nat_def Let_def)

section \<open>Properties: rounding of JavaScript numbers\<close>

lemma round_even_cases: "round_even x = \<lfloor>x\<rfloor> \<or> round_even x = \<lfloor>x\<rfloor> + 1"
  by (simp add: round_even_def Let_def)

lemma round_even_of_int [simp]: "round_even (of_int n) = n"
  by (simp add: round_even_def)

lemma round_even_ge: "of_int n \<le> x \<Longrightarrow> n \<le> round_even x"
proof -
  assume "of_int n \<le> x"
  then have "n \<le> \<lfloor>x\<rfloor>" by (simp add: le_floor_iff)
  then show ?thesis using round_even_cases [of x] by auto
qed

lemma round_even_le: "x \<le> of_int n \<Longrightarrow> round_even x \<le> n"
proof -
  assume le: "x \<le> of_int n"
  show ?thesis
  proof (cases "x = of_int n")
    case True
    then show ?thesis by simp
  next
    case False
    with le have "x < of_int n" by simp
    then have "\<lfloor>x\<rfloor> < n" by (simp add: floor_less_iff)
    then show ?thesis using round_even_cases [of x] by auto
  qed
qed


lemma ilog2_bounds:
  assumes "0 < x"
  shows "2 powi ilog2 x \<le> x" and "x < 2 powi (ilog2 x + 1)"
proof -
  have "2 powi ilog2 x \<le> x \<and> x < 2 powi (ilog2 x + 1)"
  proof (cases "1 \<le> x")
    case True
    define n where "n = \<lfloor>x\<rfloor>"
    from True have n: "0 < n" by (simp add: n_def)
    then have b: "1 \<le> bitlen n" by (simp add: bitlen_alt_def)
    from bitlen_bounds [OF n] have lo: "2 ^ nat (bitlen n - 1) \<le> n" and hi: "n < 2 ^ nat (bitlen n)"
      by simp_all
    have e: "ilog2 x = bitlen n - 1" using True by (simp add: ilog2_def n_def)
    have "(2::rat) powi (bitlen n - 1) = of_int (2 ^ nat (bitlen n - 1))"
      using b by (simp add: power_int_nonneg_exp)
    also have "\<dots> \<le> of_int n" using lo by (simp only: of_int_le_iff)
    also have "\<dots> \<le> x" by (simp add: n_def)
    finally have 1: "2 powi ilog2 x \<le> x" by (simp add: e)
    from hi have "n + 1 \<le> 2 ^ nat (bitlen n)" by simp
    then have "(of_int (n + 1) :: rat) \<le> of_int (2 ^ nat (bitlen n))"
      by (simp only: of_int_le_iff)
    moreover have "x < of_int (n + 1)" using floor_correct [of x] by (simp add: n_def)
    ultimately have "x < of_int (2 ^ nat (bitlen n))" by simp
    also have "\<dots> = 2 powi (bitlen n)"
      using b by (simp add: power_int_nonneg_exp)
    finally have 2: "x < 2 powi (ilog2 x + 1)" by (simp add: e)
    from 1 2 show ?thesis ..
  next
    case False
    define y where "y = 1 / x"
    define m where "m = \<lceil>y\<rceil> - 1"
    from False assms have y1: "1 < y" by (simp add: y_def)
    then have m: "0 < m" by (simp add: m_def)
    then have b: "1 \<le> bitlen m" by (simp add: bitlen_alt_def)
    from bitlen_bounds [OF m] have lo: "2 ^ nat (bitlen m - 1) \<le> m" and hi: "m < 2 ^ nat (bitlen m)"
      by simp_all
    have e: "ilog2 x = - bitlen m" using False by (simp add: ilog2_def m_def y_def)
    have ypos: "0 < y" using y1 by simp
    have xy: "1 / y = x" by (simp add: y_def)
    from hi have "m + 1 \<le> 2 ^ nat (bitlen m)" by simp
    then have "(of_int (m + 1) :: rat) \<le> of_int (2 ^ nat (bitlen m))"
      by (simp only: of_int_le_iff)
    moreover have "y \<le> of_int (m + 1)" using ceiling_correct [of y] by (simp add: m_def)
    ultimately have "y \<le> of_int (2 ^ nat (bitlen m))" by simp
    also have "\<dots> = 2 powi (bitlen m)"
      using b by (simp add: power_int_nonneg_exp)
    finally have "y \<le> 2 powi bitlen m" .
    then have "1 / 2 powi bitlen m \<le> 1 / y"
      using ypos by (simp add: frac_le)
    then have "2 powi (- bitlen m) \<le> x"
      by (simp add: xy power_int_minus_divide)
    then have 1: "2 powi ilog2 x \<le> x"
      by (simp only: e)
    have "(2::rat) powi (bitlen m - 1) = of_int (2 ^ nat (bitlen m - 1))"
      using b by (simp add: power_int_nonneg_exp)
    also have "\<dots> \<le> of_int m" using lo by (simp only: of_int_le_iff)
    also have "\<dots> < y" using ceiling_correct [of y] by (simp add: m_def)
    finally have "2 powi (bitlen m - 1) < y" .
    moreover have "(0::rat) < 2 powi (bitlen m - 1)" by (simp add: zero_less_power_int)
    ultimately have "1 / y < 1 / 2 powi (bitlen m - 1)"
      by (simp add: frac_less2)
    also have "\<dots> = 2 powi (- (bitlen m - 1))"
      by (simp only: power_int_minus_divide)
    finally have "x < 2 powi (- bitlen m + 1)"
      by (simp add: xy)
    then have 2: "x < 2 powi (ilog2 x + 1)"
      by (simp only: e)
    from 1 2 show ?thesis ..
  qed
  then show "2 powi ilog2 x \<le> x" and "x < 2 powi (ilog2 x + 1)" by simp_all
qed

lemma ilog2_eqI:
  assumes "2 powi e \<le> x" and "x < 2 powi (e + 1)"
  shows "ilog2 x = e"
proof -
  have "(0::rat) < 2 powi e" by (rule zero_less_power_int) simp
  from this assms(1) have pos: "0 < x" by (rule less_le_trans)
  have inj: "a < b + 1" if "(2::rat) powi a \<le> z" "z < 2 powi (b + 1)" for a b z
  proof (rule ccontr)
    assume "\<not> a < b + 1"
    then have "b + 1 \<le> a" by simp
    then have "(2::rat) powi (b + 1) \<le> 2 powi a"
      by (intro power_int_increasing) simp_all
    with that show False by simp
  qed
  from inj [OF assms(1) ilog2_bounds(2) [OF pos]] inj [OF ilog2_bounds(1) [OF pos] assms(2)]
  show ?thesis by simp
qed



lemma fl_0 [simp]: "fl 0 = 0"
  by (simp add: fl_def)

lemma fl_minus: "fl (- x) = - fl x"
  by (simp add: fl_def Let_def sgn_minus)

lemma fl_pos_eq:
  "0 < x \<Longrightarrow> fl x = of_int (round_even (x / 2 powi (ilog2 x - 52))) * 2 powi (ilog2 x - 52)"
  by (simp add: fl_def Let_def)

lemma fl_eqI:
  assumes "2 powi e \<le> x" and "x < 2 powi (e + 1)"
  shows "fl x = of_int (round_even (x / 2 powi (e - 52))) * 2 powi (e - 52)"
proof -
  have "(0::rat) < 2 powi e" by (rule zero_less_power_int) simp
  from this assms(1) have pos: "0 < x" by (rule less_le_trans)
  show ?thesis
    using fl_pos_eq [OF pos] ilog2_eqI [OF assms] by simp
qed

lemma two_powi_pos: "(0::rat) < 2 powi e"
  by (rule zero_less_power_int) simp

lemma two_powi_split: "(2::rat) powi e = 2 powi (e - 52) * 2 ^ 52"
proof -
  have "(2::rat) powi e = 2 powi ((e - 52) + 52)" by simp
  also have "\<dots> = 2 powi (e - 52) * 2 powi 52"
    by (rule power_int_add) simp
  finally show ?thesis by simp
qed

lemma fl_pos_bounds:
  assumes "0 < x"
  shows "2 powi ilog2 x \<le> fl x" and "fl x \<le> 2 powi (ilog2 x + 1)"
proof -
  define e where "e = ilog2 x"
  define s where "s = (2::rat) powi (e - 52)"
  have s: "0 < s" by (simp add: s_def two_powi_pos)
  have lo: "2 powi e = s * 2 ^ 52"
    unfolding s_def by (rule two_powi_split)
  have hi: "2 powi (e + 1) = s * 2 ^ 53"
    using two_powi_split [of "e + 1"] power_int_add [of "2::rat" "e - 52" 1]
    by (simp add: s_def algebra_simps)
  from ilog2_bounds [OF assms] have "s * 2 ^ 52 \<le> x" "x < s * 2 ^ 53"
    by (simp_all add: e_def [symmetric] lo hi)
  then have "of_int (2 ^ 52) \<le> x / s" "x / s \<le> of_int (2 ^ 53)"
    using s by (simp_all add: pos_le_divide_eq pos_divide_le_eq mult.commute)
  then have "2 ^ 52 \<le> round_even (x / s)" "round_even (x / s) \<le> 2 ^ 53"
    by (simp_all only: round_even_ge round_even_le)
  then have "(of_int (2 ^ 52) :: rat) \<le> of_int (round_even (x / s))"
    "(of_int (round_even (x / s)) :: rat) \<le> of_int (2 ^ 53)"
    by (simp_all only: of_int_le_iff)
  then have "2 ^ 52 * s \<le> of_int (round_even (x / s)) * s"
    "of_int (round_even (x / s)) * s \<le> 2 ^ 53 * s"
    using s by simp_all
  moreover have "fl x = of_int (round_even (x / s)) * s"
    using fl_pos_eq [OF assms] by (simp add: s_def e_def)
  ultimately show "2 powi ilog2 x \<le> fl x" and "fl x \<le> 2 powi (ilog2 x + 1)"
    by (simp_all add: e_def [symmetric] lo hi mult.commute)
qed

lemma fl_pos: "0 < x \<Longrightarrow> 0 < fl x"
  using fl_pos_bounds(1) [of x] two_powi_pos [of "ilog2 x"] by (rule less_le_trans [rotated])




lemma fl_exact:
  assumes "0 < x" and "x / 2 powi (ilog2 x - 52) = of_int m"
  shows "fl x = x"
proof -
  have "fl x = of_int m * 2 powi (ilog2 x - 52)"
    using fl_pos_eq [OF assms(1)] by (simp add: assms(2))
  also have "\<dots> = x"
    using two_powi_pos [of "ilog2 x - 52"] by (simp add: assms(2) [symmetric])
  finally show ?thesis .
qed

lemma fl_of_nat:
  assumes "n \<le> 2 ^ 53"
  shows "fl (of_nat n) = of_nat n"
proof (cases "n = 0")
  case True
  then show ?thesis by simp
next
  case False
  define x where "x = (of_nat n :: rat)"
  define e where "e = ilog2 x"
  have pos: "0 < x" using False by (simp add: x_def)
  have "x \<le> 2 ^ 53"
    using assms unfolding x_def by (metis of_nat_le_iff of_nat_numeral of_nat_power)
  show ?thesis
  proof (cases "n = 2 ^ 53")
    case True
    then have x53: "x = 2 ^ 53" by (simp add: x_def)
    have "ilog2 x = 53" by (rule ilog2_eqI) (simp_all add: x53)
    then have "x / 2 powi (ilog2 x - 52) = of_int (2 ^ 52)" by (simp add: x53)
    from fl_exact [OF pos this] show ?thesis by (simp add: x_def)
  next
    case neq: False
    with assms have "n < 2 ^ 53" by simp
    then have lt: "x < 2 powi 53"
      unfolding x_def by (metis of_nat_less_iff of_nat_numeral of_nat_power power_int_numeral)
    have "e < 53"
    proof (rule ccontr)
      assume "\<not> e < 53"
      then have "(2::rat) powi 53 \<le> 2 powi e" by (intro power_int_increasing) simp_all
      also have "\<dots> \<le> x" unfolding e_def by (rule ilog2_bounds [OF pos])
      finally show False using lt by simp
    qed
    then have k: "0 \<le> 52 - e" by simp
    have "x / 2 powi (e - 52) = x * 2 powi (52 - e)"
      using power_int_minus_divide [of "2::rat" "52 - e"] by simp
    also have "\<dots> = of_nat n * 2 ^ nat (52 - e)"
      using k by (simp add: power_int_nonneg_exp x_def)
    also have "\<dots> = of_int (int n * 2 ^ nat (52 - e))"
      by simp
    finally have "x / 2 powi (ilog2 x - 52) = of_int (int n * 2 ^ nat (52 - e))"
      by (simp add: e_def)
    from fl_exact [OF pos this] show ?thesis by (simp add: x_def)
  qed
qed


lemma round_even_eqI:
  assumes "\<bar>x - of_int m\<bar> < 1 / 2"
  shows "round_even x = m"
proof -
  from assms have lo: "of_int m - 1 / 2 < x" and hi: "x < of_int m + 1 / 2"
    by linarith+
  show ?thesis
  proof (cases "of_int m \<le> x")
    case True
    with hi have "\<lfloor>x\<rfloor> = m" by (intro floor_unique) simp_all
    with hi show ?thesis by (simp add: round_even_def Let_def)
  next
    case False
    with lo have "\<lfloor>x\<rfloor> = m - 1" by (intro floor_unique) simp_all
    with lo False show ?thesis by (auto simp: round_even_def Let_def)
  qed
qed

lemma fl_value:
  assumes "2 powi e \<le> x" and "x < 2 powi (e + 1)"
    and "\<bar>x / 2 powi (e - 52) - of_int m\<bar> < 1 / 2"
  shows "fl x = of_int m * 2 powi (e - 52)"
  using fl_eqI [OF assms(1,2)] round_even_eqI [OF assms(3)] by simp

lemma fl_numeral: "numeral k \<le> (2 ^ 53 :: int) \<Longrightarrow> fl (numeral k) = numeral k"
proof -
  assume "numeral k \<le> (2 ^ 53 :: int)"
  then have "int (numeral k) \<le> int (2 ^ 53)" by simp
  then have "numeral k \<le> (2 ^ 53 :: nat)" by (simp only: of_nat_le_iff)
  from fl_of_nat [OF this] show ?thesis by simp
qed

lemma fl_1 [simp]: "fl 1 = 1"
  using fl_of_nat [of 1] by simp

lemma fl_neg_numeral: "numeral k \<le> (2 ^ 53 :: int) \<Longrightarrow> fl (- numeral k) = - numeral k"
  by (simp add: fl_minus fl_numeral)

lemmas js_arith = js_add_def js_sub_def js_mul_def js_div_def fl_numeral fl_neg_numeral

lemmas emit_ranges_numeral =
  emit_ranges.simps(2) [of "pred_numeral k", folded numeral_eq_Suc] for k

section \<open>Properties: SegmentTimeline expansion\<close>

text \<open>Adjacent entries of a timeline meet: each one ends where the next one starts.\<close>

fun contiguous :: "time_range list \<Rightarrow> bool" where
  "contiguous [] = True"
| "contiguous [x] = True"
| "contiguous (x # y # zs) = (range_end x = range_start y \<and> contiguous (y # zs))"

lemma contiguous_append:
  "contiguous (xs @ ys) \<longleftrightarrow>
     contiguous xs \<and> contiguous ys
     \<and> (xs \<noteq> [] \<longrightarrow> ys \<noteq> [] \<longrightarrow> range_end (last xs) = range_start (hd ys))"
  by (induction xs rule: contiguous.induct) (cases ys; auto)+

lemma contiguous_nth:
  "contiguous xs \<longleftrightarrow> (\<forall>i. Suc i < length xs \<longrightarrow> range_end (xs ! i) = range_start (xs ! Suc i))"
proof (induction xs rule: contiguous.induct)
  case (3 x y zs)
  show ?case
  proof
    assume c: "contiguous (x # y # zs)"
    show "\<forall>i. Suc i < length (x # y # zs) \<longrightarrow>
              range_end ((x # y # zs) ! i) = range_start ((x # y # zs) ! Suc i)"
    proof (intro allI impI)
      fix i assume "Suc i < length (x # y # zs)"
      then show "range_end ((x # y # zs) ! i) = range_start ((x # y # zs) ! Suc i)"
        using c 3 by (cases i) auto
    qed
  next
    assume a: "\<forall>i. Suc i < length (x # y # zs) \<longrightarrow>
              range_end ((x # y # zs) ! i) = range_start ((x # y # zs) ! Suc i)"
    from a [rule_format, of 0] have "range_end x = range_start y" by simp
    moreover have "contiguous (y # zs)"
      using a 3 by (auto simp: nth_Cons')
    ultimately show "contiguous (x # y # zs)" by simp
  qed
qed simp_all

lemma emit_ranges_fst_Suc:
  "fst (emit_ranges (Suc n) s d ts le)
     = \<lparr>range_start = js_div s ts, range_end = js_div (js_add s d) ts, unscaledStart = s\<rparr>
       # fst (emit_ranges n (js_add s d) d ts (js_add s d))"
  by (simp add: Let_def case_prod_unfold)

lemma emit_ranges_snd_Suc:
  "snd (emit_ranges (Suc n) s d ts le) = snd (emit_ranges n (js_add s d) d ts (js_add s d))"
  by (simp add: Let_def case_prod_unfold)

lemma emit_ranges_length [simp]: "length (fst (emit_ranges n s d ts le)) = n"
  by (induction n arbitrary: s le) (simp_all add: emit_ranges_fst_Suc del: emit_ranges.simps(2))

lemma emit_ranges_nonempty: "0 < n \<Longrightarrow> fst (emit_ranges n s d ts le) \<noteq> []"
  by (cases n) (simp_all add: emit_ranges_fst_Suc del: emit_ranges.simps(2))

lemma emit_ranges_hd:
  "0 < n \<Longrightarrow> range_start (hd (fst (emit_ranges n s d ts le))) = js_div s ts"
  by (cases n) (simp_all add: emit_ranges_fst_Suc del: emit_ranges.simps(2))

lemma emit_ranges_contiguous:
  "contiguous (fst (emit_ranges n s d ts le))"
proof (induction n arbitrary: s le)
  case 0
  then show ?case by simp
next
  case (Suc n)
  let ?e = "js_add s d"
  show ?case
  proof (cases n)
    case 0
    then show ?thesis by (simp add: emit_ranges_fst_Suc del: emit_ranges.simps(2))
  next
    case (Suc m)
    then have pos: "0 < n" by simp
    from emit_ranges_nonempty [OF pos] obtain y zs
      where yz: "fst (emit_ranges n ?e d ts ?e) = y # zs"
      by (cases "fst (emit_ranges n ?e d ts ?e)") auto
    from emit_ranges_hd [OF pos, of ?e d ts ?e] yz have "range_start y = js_div ?e ts"
      by simp
    moreover from Suc.IH [of ?e ?e] yz have "contiguous (y # zs)" by simp
    ultimately show ?thesis
      using yz by (simp add: emit_ranges_fst_Suc del: emit_ranges.simps(2))
  qed
qed

lemma emit_ranges_last:
  "0 < n \<Longrightarrow>
     range_end (last (fst (emit_ranges n s d ts le))) = js_div (snd (emit_ranges n s d ts le)) ts"
proof (induction n arbitrary: s le)
  case 0
  then show ?case by simp
next
  case (Suc n)
  let ?e = "js_add s d"
  show ?case
  proof (cases n)
    case 0
    then show ?thesis
      by (simp add: emit_ranges_fst_Suc emit_ranges_snd_Suc del: emit_ranges.simps(2))
  next
    case (Suc m)
    then have pos: "0 < n" by simp
    from Suc.IH [OF pos, of ?e ?e] emit_ranges_nonempty [OF pos, of ?e d ts ?e] show ?thesis
      by (simp add: emit_ranges_fst_Suc emit_ranges_snd_Suc del: emit_ranges.simps(2))
  qed
qed

lemma negative_repeat_next_nonneg:
  assumes "negative_repeat ts pd start d rest = Inr rep" and "rest \<noteq> []" and "0 < d"
  shows "0 \<le> rep"
proof -
  from assms(2) obtain nxt more where rest: "rest = nxt # more" by (cases rest) auto
  show ?thesis
  proof (cases "attr_t nxt")
    case None
    with rest assms(1) show ?thesis by (simp add: negative_repeat_def)
  next
    case (Some nt)
    with rest assms(1) have lt: "start < of_nat nt"
      and rep: "rep = \<lceil>js_div (js_sub (of_nat nt) start) (of_nat d)\<rceil> - 1"
      by (auto simp: negative_repeat_def split: if_splits)
    from lt have "0 < js_sub (of_nat nt) start"
      unfolding js_sub_def by (intro fl_pos) simp
    with \<open>0 < d\<close> have "0 < js_div (js_sub (of_nat nt) start) (of_nat d)"
      unfolding js_div_def by (intro fl_pos) simp
    then have "0 < \<lceil>js_div (js_sub (of_nat nt) start) (of_nat d)\<rceil>" by simp
    with rep show ?thesis by simp
  qed
qed

lemma stretch_last_contiguous:
  assumes "contiguous timeline" and "timeline \<noteq> []"
  shows "contiguous (butlast timeline @ [(last timeline)\<lparr>range_end := e\<rparr>])"
proof -
  have "timeline = butlast timeline @ [last timeline]" using assms(2) by simp
  with assms(1) have "contiguous (butlast timeline @ [last timeline])" by simp
  then show ?thesis
    by (simp add: contiguous_append)
qed

lemma timeline_loop_contiguous:
  assumes "contiguous timeline"
    and "timeline \<noteq> [] \<longrightarrow> range_end (last timeline) = js_div lastEnd ts"
  shows "contiguous (fst (timeline_loop ts pto pd elems (timeline, lastEnd, ws)))"
  using assms
proof (induction elems arbitrary: timeline lastEnd ws)
  case Nil
  then show ?case by simp
next
  case (Cons tp rest)
  show ?case
  proof (cases "attr_d tp")
    case None
    with Cons.prems show ?thesis by simp
  next
    case (Some d)
    show ?thesis
    proof (cases "d = 0")
      case True
      with Some Cons.prems show ?thesis by simp
    next
      case False
      define start where
        "start = (case map_option (\<lambda>t. js_sub (of_nat t) pto) (attr_t tp) of
                    Some t' \<Rightarrow> t' | None \<Rightarrow> lastEnd)"
      define r where "r = (case attr_r tp of None \<Rightarrow> 0 | Some r' \<Rightarrow> r')"
      define res where
        "res = (if r < 0 then negative_repeat ts pd start d rest else Inr r)"
      show ?thesis
      proof (cases res)
        case (Inl w)
        then have "timeline_loop ts pto pd (tp # rest) (timeline, lastEnd, ws)
                     = (timeline, lastEnd, ws @ [w])"
          using Some False unfolding res_def r_def start_def by (simp add: Let_def)
        with Cons.prems show ?thesis by simp
      next
        case (Inr rep)
        define n where "n = nat (rep + 1)"
        define stretch where "stretch \<longleftrightarrow> timeline \<noteq> [] \<and> start \<noteq> lastEnd"
        define timeline' where
          "timeline' = (if stretch
                        then butlast timeline @ [(last timeline)\<lparr>range_end := js_div start ts\<rparr>]
                        else timeline)"
        define items where "items = fst (emit_ranges n start (of_nat d) ts lastEnd)"
        define lastEnd' where "lastEnd' = snd (emit_ranges n start (of_nat d) ts lastEnd)"
        define new where "new = timeline' @ items"
        have c': "contiguous timeline'"
          using Cons.prems(1) stretch_last_contiguous
          by (simp add: timeline'_def stretch_def)
        have e': "timeline' \<noteq> [] \<longrightarrow> range_end (last timeline') = js_div start ts"
          using Cons.prems(2) by (auto simp: timeline'_def stretch_def)
        have c_items: "contiguous items"
          unfolding items_def by (rule emit_ranges_contiguous)
        have hd_items: "items \<noteq> [] \<longrightarrow> range_start (hd items) = js_div start ts"
        proof
          assume "items \<noteq> []"
          then have "0 < n" by (cases n) (auto simp: items_def)
          then show "range_start (hd items) = js_div start ts"
            unfolding items_def by (rule emit_ranges_hd)
        qed
        have c_new: "contiguous new"
          using c' e' c_items hd_items by (simp add: new_def contiguous_append)
        have step: "timeline_loop ts pto pd (tp # rest) (timeline, lastEnd, ws) =
            timeline_loop ts pto pd rest
              (new, lastEnd',
               if stretch \<and> \<bar>js_div (js_sub start lastEnd) ts\<bar> \<ge> GAP_OVERLAP_TOLERANCE_SECONDS
               then ws @ [LargeGapOverlap] else ws)"
          using Some False Inr
          unfolding res_def r_def start_def new_def timeline'_def stretch_def n_def items_def
            lastEnd'_def
          by (simp add: Let_def split: prod.splits)
        show ?thesis
        proof (cases rest)
          case Nil
          with step c_new show ?thesis by simp
        next
          case (Cons nxt more)
          have rep_nonneg: "0 \<le> rep"
          proof (cases "r < 0")
            case True
            with Inr have "negative_repeat ts pd start d rest = Inr rep" by (simp add: res_def)
            then show ?thesis using negative_repeat_next_nonneg Cons False by blast
          next
            case False
            with Inr show ?thesis by (simp add: res_def)
          qed
          then have n_pos: "0 < n" by (simp add: n_def)
          have emitted: "items \<noteq> []"
            unfolding items_def using n_pos by (rule emit_ranges_nonempty)
          have e_new: "new \<noteq> [] \<longrightarrow> range_end (last new) = js_div lastEnd' ts"
            using emitted emit_ranges_last [OF n_pos, of start "of_nat d" ts lastEnd]
            by (simp add: new_def items_def lastEnd'_def)
          show ?thesis
            unfolding step using c_new e_new by (rule Cons.IH)
        qed
      qed
    qed
  qed
qed

text \<open>
  C9: every SegmentTimeline expansion is contiguous: of two adjacent entries of the
  result the earlier one ends where the later one starts.  When an \<open>S\<close> element
  starts elsewhere than the previous entry ends, that entry's end is moved to the new
  start, whatever the size of the difference; the tolerance of 1/15 second decides only
  whether \<open>LargeGapOverlap\<close> is logged (the example has a gap of 1/1000 second, no warning,
  and the second entry stretched to 21/1000).
\<close>

theorem createTimeline_contiguous:
  assumes "createTimeline timePoints timescale pto periodDuration = Inr (timeline, ws)"
  shows "\<forall>i. Suc i < length timeline \<longrightarrow>
           range_end (timeline ! i) = range_start (timeline ! Suc i)"
proof -
  from assms have
    tline: "timeline = fst (timeline_loop timescale pto periodDuration timePoints ([], - pto, []))"
    by (auto simp: createTimeline_def split: if_splits prod.splits)
  have "contiguous timeline"
    unfolding tline by (rule timeline_loop_contiguous) simp_all
  then show ?thesis by (simp add: contiguous_nth)
qed

lemma fl_1_1000: "fl (1 / 1000) = 1152921504606847 / 1152921504606846976"
  using fl_value [of "- 10" "1 / 1000" 4611686018427388] by simp

lemma fl_1_15: "fl (1 / 15) = 4803839602528529 / 72057594037927936"
  using fl_value [of "- 4" "1 / 15" 4803839602528529] by simp

lemma gap_S_timeline: "createTimeline gap_S 1000 0 None = Inr (gap_timeline, [])"
  by (simp add: createTimeline_def gap_S_def gap_timeline_def Let_def
        GAP_OVERLAP_TOLERANCE_SECONDS_def js_arith emit_ranges_numeral fl_1_1000 fl_1_15)

theorem createTimeline_contiguous_witness:
  "createTimeline gap_S 1000 0 None = Inr (gap_timeline, [])
   \<and> range_end (gap_timeline ! 0) = range_start (gap_timeline ! 1)
   \<and> range_end (gap_timeline ! 1) = range_start (gap_timeline ! 2)
   \<and> range_start (gap_timeline ! 2) = js_div 21 1000"
proof -
  have "Suc 0 < length gap_timeline" and "Suc 1 < length gap_timeline"
    by (simp_all add: gap_timeline_def)
  with createTimeline_contiguous [OF gap_S_timeline]
  have "range_end (gap_timeline ! 0) = range_start (gap_timeline ! Suc 0)"
    and "range_end (gap_timeline ! 1) = range_start (gap_timeline ! Suc 1)"
    by blast+
  moreover have "range_start (gap_timeline ! 2) = js_div 21 1000"
    by (simp add: gap_timeline_def)
  ultimately show ?thesis
    using gap_S_timeline by (simp add: eval_nat_numeral)
qed

lemma emit_ranges_map:
  "fst (emit_ranges n s d ts le)
     = map (\<lambda>k. \<lparr>range_start = js_div (((\<lambda>x. js_add x d) ^^ k) s) ts,
                 range_end = js_div (((\<lambda>x. js_add x d) ^^ Suc k) s) ts,
                 unscaledStart = ((\<lambda>x. js_add x d) ^^ k) s\<rparr>) [0..<n]"
proof (induction n arbitrary: s le)
  case 0
  then show ?case by simp
next
  case (Suc n)
  have "[0..<Suc n] = 0 # map Suc [0..<n]"
    by (simp add: upt_conv_Cons map_Suc_upt del: upt_Suc)
  moreover have "((\<lambda>x. js_add x d) ^^ k) (js_add s d) = js_add (((\<lambda>x. js_add x d) ^^ k) s) d"
    for k
    using funpow_swap1 [of "\<lambda>x. js_add x d" k s] by simp
  ultimately show ?case
    using Suc.IH [of "js_add s d" "js_add s d"]
    by (simp add: emit_ranges_fst_Suc comp_def del: emit_ranges.simps(2) upt_Suc)
qed

text \<open>An \<open>S\<close> element with a duration and without a negative repeat count: the loop
  handles it without looking at the element that follows and without returning.\<close>

definition ordinary :: "s_element \<Rightarrow> bool" where
  "ordinary p \<longleftrightarrow>
     (\<exists>d. attr_d p = Some d \<and> 0 < d) \<and> (\<forall>r. attr_r p = Some r \<longrightarrow> 0 \<le> r)"

lemma timeline_loop_ordinary:
  assumes "ordinary p"
  shows "timeline_loop ts pto pd (p # rest) st
           = timeline_loop ts pto pd rest (timeline_loop ts pto pd [p] st)"
proof -
  obtain tline le ws where st: "st = (tline, le, ws)" by (cases st)
  from assms obtain d where d: "attr_d p = Some d" "d \<noteq> 0"
    by (auto simp: ordinary_def)
  from assms have r: "\<not> (case attr_r p of None \<Rightarrow> 0 | Some r' \<Rightarrow> r') < 0"
    by (auto simp: ordinary_def split: option.splits)
  show ?thesis
    unfolding st using d r by (simp add: Let_def case_prod_unfold)
qed

lemma timeline_loop_append:
  assumes "\<forall>p \<in> set pre. ordinary p"
  shows "timeline_loop ts pto pd (pre @ rest) st
           = timeline_loop ts pto pd rest (timeline_loop ts pto pd pre st)"
  using assms
proof (induction pre arbitrary: st)
  case Nil
  show ?case by (cases st) simp
next
  case (Cons p pre)
  then have p: "ordinary p" and pre: "\<forall>p \<in> set pre. ordinary p" by simp_all
  have "timeline_loop ts pto pd ((p # pre) @ rest) st
          = timeline_loop ts pto pd (pre @ rest) (timeline_loop ts pto pd [p] st)"
    using timeline_loop_ordinary [OF p, of ts pto pd "pre @ rest" st] by simp
  also have "\<dots> = timeline_loop ts pto pd rest
                      (timeline_loop ts pto pd pre (timeline_loop ts pto pd [p] st))"
    by (rule Cons.IH [OF pre])
  also have "timeline_loop ts pto pd pre (timeline_loop ts pto pd [p] st)
               = timeline_loop ts pto pd (p # pre) st"
    by (rule timeline_loop_ordinary [OF p, symmetric])
  finally show ?case .
qed

lemma timeline_loop_last_negative:
  assumes "0 < d" and "r < 0"
  shows "timeline_loop ts pto (Some pd) [\<lparr>attr_t = t, attr_d = Some d, attr_r = Some r\<rparr>]
           (tline, le, ws)
         = (let start = (case t of None \<Rightarrow> le | Some t' \<Rightarrow> js_sub (of_nat t') pto);
                repeat = \<lceil>js_div (js_sub (js_mul pd ts) start) (of_nat d)\<rceil> - 1;
                stretch = (tline \<noteq> [] \<and> start \<noteq> le)
            in if js_div start ts \<ge> pd
               then (tline, le, ws @ [NegativeRepeatStartExceedsPeriod])
               else ((if stretch
                      then butlast tline @ [(last tline)\<lparr>range_end := js_div start ts\<rparr>]
                      else tline)
                     @ fst (emit_ranges (nat (repeat + 1)) start (of_nat d) ts le),
                     snd (emit_ranges (nat (repeat + 1)) start (of_nat d) ts le),
                     if stretch
                        \<and> \<bar>js_div (js_sub start le) ts\<bar> \<ge> GAP_OVERLAP_TOLERANCE_SECONDS
                     then ws @ [LargeGapOverlap] else ws))"
  using assms
  by (cases t) (simp_all add: Let_def negative_repeat_def case_prod_unfold)

lemma single_S_expansion: "createTimeline single_S 1 0 (Some 60) = Inr (single_S_timeline, [])"
  by (simp add: createTimeline_def single_S_def single_S_timeline_def Let_def
        negative_repeat_def js_arith emit_ranges_numeral)

text \<open>
  C5: a timeline whose single \<open>S\<close> element has \<open>t = 0\<close>, \<open>d = 10\<close>, \<open>r = -1\<close>, with
  timescale 1 and a period duration of 60 seconds, expands to six entries that start at
  0, 10, 20, 30, 40 and 50 seconds, the last ending at 60.  In general, let the last \<open>S\<close>
  element have \<open>r < 0\<close>, let the period duration be finite, and let the loop reach that
  element, after any \<open>S\<close> elements with a duration and without a negative repeat count, with
  the timeline \<open>tline\<close> and \<open>lastEndTime = le\<close>.  Then the repeat count is
  \<open>ceil((periodDuration * timescale - start) / d) - 1\<close>, the product, the difference and the
  quotient being those of JavaScript numbers: the result is \<open>tline\<close>, its last entry
  stretched to \<open>start\<close> if it ends elsewhere, followed by \<open>repeat + 1\<close> entries, the \<open>k\<close>-th
  from \<open>start\<close> plus \<open>k\<close> times \<open>d\<close> (added one by one) to that plus \<open>d\<close>; when
  \<open>start / timescale >= periodDuration\<close> the element is dropped with a warning.
\<close>

theorem createTimeline_last_negative_repeat:
  "createTimeline single_S 1 0 (Some 60) = Inr (single_S_timeline, [])
   \<and> (0 < timescale \<longrightarrow> 0 < pd \<longrightarrow> 0 < d \<longrightarrow> r < 0 \<longrightarrow> (\<forall>p \<in> set pre. ordinary p) \<longrightarrow>
        timeline_loop timescale pto (Some pd) pre ([], - pto, []) = (tline, le, ws) \<longrightarrow>
        (let start = (case t of None \<Rightarrow> le | Some t' \<Rightarrow> js_sub (of_nat t') pto);
             repeat = \<lceil>js_div (js_sub (js_mul pd timescale) start) (of_nat d)\<rceil> - 1;
             stretch = (tline \<noteq> [] \<and> start \<noteq> le);
             nth_start = (\<lambda>k. ((\<lambda>x. js_add x (of_nat d)) ^^ k) start)
         in createTimeline (pre @ [\<lparr>attr_t = t, attr_d = Some d, attr_r = Some r\<rparr>])
              timescale pto (Some pd)
            = Inr (if js_div start timescale \<ge> pd
                   then (tline, ws @ [NegativeRepeatStartExceedsPeriod])
                   else ((if stretch
                          then butlast tline
                               @ [(last tline)\<lparr>range_end := js_div start timescale\<rparr>]
                          else tline)
                         @ map (\<lambda>k. \<lparr>range_start = js_div (nth_start k) timescale,
                                     range_end = js_div (nth_start (Suc k)) timescale,
                                     unscaledStart = nth_start k\<rparr>)
                               [0..<nat (repeat + 1)],
                         if stretch
                            \<and> \<bar>js_div (js_sub start le) timescale\<bar>
                                \<ge> GAP_OVERLAP_TOLERANCE_SECONDS
                         then ws @ [LargeGapOverlap] else ws))))"
proof (intro conjI impI)
  show "createTimeline single_S 1 0 (Some 60) = Inr (single_S_timeline, [])"
    by (rule single_S_expansion)
next
  assume ts: "0 < timescale" and pd: "0 < pd" and d: "0 < d" and r: "r < 0"
    and pre: "\<forall>p \<in> set pre. ordinary p"
    and state: "timeline_loop timescale pto (Some pd) pre ([], - pto, []) = (tline, le, ws)"
  let ?last = "\<lparr>attr_t = t, attr_d = Some d, attr_r = Some r\<rparr>"
  have "timeline_loop timescale pto (Some pd) (pre @ [?last]) ([], - pto, [])
          = timeline_loop timescale pto (Some pd) [?last] (tline, le, ws)"
    using timeline_loop_append [OF pre, of timescale pto "Some pd" "[?last]" "([], - pto, [])"]
    by (simp only: state)
  then show "let start = (case t of None \<Rightarrow> le | Some t' \<Rightarrow> js_sub (of_nat t') pto);
             repeat = \<lceil>js_div (js_sub (js_mul pd timescale) start) (of_nat d)\<rceil> - 1;
             stretch = (tline \<noteq> [] \<and> start \<noteq> le);
             nth_start = (\<lambda>k. ((\<lambda>x. js_add x (of_nat d)) ^^ k) start)
         in createTimeline (pre @ [\<lparr>attr_t = t, attr_d = Some d, attr_r = Some r\<rparr>])
              timescale pto (Some pd)
            = Inr (if js_div start timescale \<ge> pd
                   then (tline, ws @ [NegativeRepeatStartExceedsPeriod])
                   else ((if stretch
                          then butlast tline
                               @ [(last tline)\<lparr>range_end := js_div start timescale\<rparr>]
                          else tline)
                         @ map (\<lambda>k. \<lparr>range_start = js_div (nth_start k) timescale,
                                     range_end = js_div (nth_start (Suc k)) timescale,
                                     unscaledStart = nth_start k\<rparr>)
                               [0..<nat (repeat + 1)],
                         if stretch
                            \<and> \<bar>js_div (js_sub start le) timescale\<bar>
                                \<ge> GAP_OVERLAP_TOLERANCE_SECONDS
                         then ws @ [LargeGapOverlap] else ws))"
    using ts pd
    by (simp add: createTimeline_def timeline_loop_last_negative [OF d r] Let_def
        emit_ranges_map del: timeline_loop.simps)
qed

text \<open>Two \<open>S\<close> elements, the last with \<open>r = -1\<close>, in a period of 60 seconds; and a period of
  0.07 seconds at timescale 100, where \<open>0.07 * 100\<close> is \<open>7.000000000000001\<close> and the
  timeline has 8 entries.\<close>

lemma js_0_07: "js_div 7 100 = 1261007895663739 / 18014398509481984"
  unfolding js_div_def using fl_value [of "- 4" "7 / 100" 5044031582654956] by simp

lemma js_0_07_times_100:
  "js_mul (1261007895663739 / 18014398509481984) 100 = 7881299347898369 / 1125899906842624"
  unfolding js_mul_def
  using fl_value [of 2 "1261007895663739 / 18014398509481984 * 100" 7881299347898369] by simp

lemma js_7_000000000000001:
  "fl (7881299347898369 / 1125899906842624) = 7881299347898369 / 1125899906842624"
  using fl_value [of 2 "7881299347898369 / 1125899906842624" 7881299347898369] by simp

lemma repeat_0_07:
  "\<lceil>js_div (js_sub (js_mul (js_div 7 100) 100) 0) 1\<rceil> - 1 = 7"
proof -
  have "\<lceil>7881299347898369 / 1125899906842624 :: rat\<rceil> = 8"
    by (rule ceiling_unique) simp_all
  then show ?thesis
    unfolding js_0_07 js_0_07_times_100
    by (simp add: js_sub_def js_div_def js_7_000000000000001)
qed

theorem createTimeline_last_negative_repeat_witness:
  "createTimeline two_S 1 0 (Some 60) = Inr (two_S_timeline, [])
   \<and> (\<exists>timeline.
         createTimeline [\<lparr>attr_t = Some 0, attr_d = Some 1, attr_r = Some (- 1)\<rparr>] 100 0
           (Some (js_div 7 100)) = Inr (timeline, [])
         \<and> length timeline = 8)"
proof -
  have pre: "timeline_loop 1 0 (Some 60) [\<lparr>attr_t = Some 0, attr_d = Some 5, attr_r = Some 1\<rparr>]
               ([], - 0, [])
             = ([\<lparr>range_start = 0, range_end = 5, unscaledStart = 0\<rparr>,
                 \<lparr>range_start = 5, range_end = 10, unscaledStart = 5\<rparr>], 10, [])"
    by (simp add: Let_def js_arith emit_ranges_numeral)
  have first: "createTimeline two_S 1 0 (Some 60) = Inr (two_S_timeline, [])"
    using createTimeline_last_negative_repeat
      [of 1 60 10 "- 1" "[\<lparr>attr_t = Some 0, attr_d = Some 5, attr_r = Some 1\<rparr>]" 0
          "[\<lparr>range_start = 0, range_end = 5, unscaledStart = 0\<rparr>,
            \<lparr>range_start = 5, range_end = 10, unscaledStart = 5\<rparr>]" 10 "[]" None]
      pre
    by (simp add: ordinary_def two_S_def two_S_timeline_def Let_def js_arith upt_rec
        del: timeline_loop.simps)
  have pos: "(0::rat) < js_div 7 100"
    by (simp add: js_0_07)
  have second: "\<exists>timeline.
         createTimeline [\<lparr>attr_t = Some 0, attr_d = Some 1, attr_r = Some (- 1)\<rparr>] 100 0
           (Some (js_div 7 100)) = Inr (timeline, [])
         \<and> length timeline = 8"
    using createTimeline_last_negative_repeat
      [of 100 "js_div 7 100" 1 "- 1" "[]" 0 "[]" 0 "[]" "Some 0"] pos repeat_0_07
    by (simp add: Let_def js_sub_def js_div_def [of 0] js_0_07 del: timeline_loop.simps(2))
  from first second show ?thesis ..
qed

section \<open>Properties: the rolling media playlist\<close>

text \<open>A playlist in the shape the saver keeps: the header, then \<open>#EXTINF\<close> entries only.\<close>

definition playlist_shape :: "'d track_state \<Rightarrow> nat \<Rightarrow> 'd playlist_item list \<Rightarrow> bool" where
  "playlist_shape ts q items \<longleftrightarrow> template ts = Header q # items \<and> list_all is_extinf items"

lemma filter_all_extinf: "list_all is_extinf items \<Longrightarrow> filter is_extinf items = items"
  by (induction items) simp_all

lemma shape_entries: "playlist_shape ts q items \<Longrightarrow> entries ts = items"
  by (simp add: playlist_shape_def entries_def filter_all_extinf)

lemma shape_sequence: "playlist_shape ts q items \<Longrightarrow> media_sequence ts = Some q"
  by (simp add: playlist_shape_def media_sequence_def)

lemma update_playlist_step:
  assumes shape: "playlist_shape ts q items"
    and ok: "update_playlist maxSegmentNum d name ts = Inr (ts', full)"
  shows "if int (length items) = maxSegmentNum
         then (\<exists>d0 u rest. items = ExtInf d0 u # rest
                 \<and> playlist_shape ts' (Suc q) (rest @ [ExtInf d (name @ ''.mp4'')])
                 \<and> u \<in> files ts \<and> files ts' = files ts - {u} \<and> full)
         else playlist_shape ts' q (items @ [ExtInf d (name @ ''.mp4'')])
              \<and> files ts' = files ts \<and> \<not> full"
proof (cases "int (length items) = maxSegmentNum")
  case False
  with shape ok show ?thesis
    by (auto simp: update_playlist_def playlist_shape_def filter_all_extinf Let_def)
next
  case True
  show ?thesis
  proof (cases items)
    case Nil
    with True shape ok show ?thesis
      by (simp add: update_playlist_def playlist_shape_def Let_def)
  next
    case (Cons x rest)
    with shape obtain d0 u where x: "x = ExtInf d0 u"
      by (cases x) (auto simp: playlist_shape_def)
    from shape Cons x have tpl: "template ts = Header q # ExtInf d0 u # rest"
      and all: "list_all is_extinf rest"
      by (simp_all add: playlist_shape_def)
    have filt: "filter is_extinf (template ts) = ExtInf d0 u # rest"
      by (simp add: tpl all filter_all_extinf)
    from ok True Cons x have "u \<in> files ts"
      and "ts' = \<lparr>template = (Header (q + 1) # rest) @ [ExtInf d (name @ ''.mp4'')],
                   files = files ts - {u}\<rparr>"
      and "full"
      unfolding update_playlist_def Let_def filt
      by (auto simp: tpl splice_indexOf_def split: if_splits)
    with True Cons x all show ?thesis
      by (simp add: playlist_shape_def)
  qed
qed

lemma process_segment_step:
  assumes shape: "playlist_shape ts q items"
    and ok: "process_segment maxSegmentNum seg ts = Inr (ts', full)"
    and media: "segmentName seg \<noteq> initFile"
  shows "if int (length items) = maxSegmentNum
         then (\<exists>d0 u rest. items = ExtInf d0 u # rest
                 \<and> playlist_shape ts' (Suc q)
                      (rest @ [ExtInf (segmentDuration seg) (nameOnly seg @ ''.mp4'')])
                 \<and> files ts' = insert (nameOnly seg @ ''.mp4'') (files ts) - {u} \<and> full)
         else playlist_shape ts' q
                (items @ [ExtInf (segmentDuration seg) (nameOnly seg @ ''.mp4'')])
              \<and> files ts' = insert (nameOnly seg @ ''.mp4'') (files ts) \<and> \<not> full"
proof -
  define ts1 where "ts1 = ts\<lparr>files := insert (nameOnly seg @ ''.mp4'') (files ts)\<rparr>"
  have shape1: "playlist_shape ts1 q items"
    using shape by (simp add: playlist_shape_def ts1_def)
  from ok media have "update_playlist maxSegmentNum (segmentDuration seg) (nameOnly seg) ts1
      = Inr (ts', full)"
    by (simp add: process_segment_def ts1_def split: if_splits)
  from update_playlist_step [OF shape1 this] show ?thesis
    by (auto simp: ts1_def split: if_splits)
qed

lemma run_track_shape:
  assumes "1 \<le> maxSegmentNum"
    and "playlist_shape ts q items" and "int (length items) \<le> maxSegmentNum"
    and "run_track maxSegmentNum segs ts = Inr ts'"
  shows "\<exists>q' items'. playlist_shape ts' q' items' \<and> int (length items') \<le> maxSegmentNum
           \<and> q' + length items' = q + length items + appended segs"
  using assms(2-4)
proof (induction segs arbitrary: ts q items)
  case Nil
  then show ?case by (auto simp: appended_def)
next
  case (Cons seg segs)
  from Cons.prems(3) obtain ts1 full where
        step: "process_segment maxSegmentNum seg ts = Inr (ts1, full)"
    and rest: "run_track maxSegmentNum segs ts1 = Inr ts'"
    by (auto split: sum.splits)
  show ?case
  proof (cases "segmentName seg = initFile")
    case True
    with step have "ts1 = ts" by (simp add: process_segment_def)
    with Cons.IH [OF Cons.prems(1,2)] rest True show ?thesis
      by (simp add: appended_def)
  next
    case False
    note st = process_segment_step [OF Cons.prems(1) step False]
    show ?thesis
    proof (cases "int (length items) = maxSegmentNum")
      case True
      with st obtain d0 u rest' where items: "items = ExtInf d0 u # rest'"
        and shape1: "playlist_shape ts1 (Suc q)
                      (rest' @ [ExtInf (segmentDuration seg) (nameOnly seg @ ''.mp4'')])"
        by auto
      have len1: "int (length (rest' @ [ExtInf (segmentDuration seg) (nameOnly seg @ ''.mp4'')]))
                    \<le> maxSegmentNum"
        using True items by simp
      from Cons.IH [OF shape1 len1 rest] show ?thesis
        using items False by (auto simp: appended_def)
    next
      case notfull: False
      with st have shape1: "playlist_shape ts1 q
                      (items @ [ExtInf (segmentDuration seg) (nameOnly seg @ ''.mp4'')])"
        by simp
      have len1: "int (length (items @ [ExtInf (segmentDuration seg) (nameOnly seg @ ''.mp4'')]))
                    \<le> maxSegmentNum"
        using notfull Cons.prems(2) by simp
      from Cons.IH [OF shape1 len1 rest] show ?thesis
        using False by (auto simp: appended_def)
    qed
  qed
qed

lemma initial_shape: "playlist_shape initial_track 0 []"
  by (simp add: playlist_shape_def initial_track_def)

text \<open>
  C1, amended: let \<open>maxSegmentNum\<close> be an integer of at least 1.  After any number of
  segments processed for a track from the creation of its playlist on (all of them
  without an exception), the playlist holds at most \<open>maxSegmentNum\<close> \<open>#EXTINF\<close> entries
  and its media sequence number, 0 at creation, is the number of entries evicted so far
  (the entries appended less the entries present).  A further segment that is processed
  without an exception is appended; when it finds the playlist at \<open>maxSegmentNum\<close> entries,
  exactly the eldest entry is removed, its media file is unlinked and the media sequence
  number grows by 1; otherwise nothing is removed.  (\<open>run_cycles_tracks\<close>: in a run of
  cycles each track goes through \<open>run_track\<close> on the segments the cycles give it.)
\<close>

theorem rolling_playlist:
  assumes "1 \<le> maxSegmentNum"
    and "run_track maxSegmentNum segs initial_track = Inr ts"
  shows "int (length (entries ts)) \<le> maxSegmentNum
         \<and> media_sequence ts = Some (appended segs - length (entries ts))
         \<and> length (entries ts) \<le> appended segs
         \<and> (\<forall>seg ts' full.
               segmentName seg \<noteq> initFile \<longrightarrow>
               process_segment maxSegmentNum seg ts = Inr (ts', full) \<longrightarrow>
               (if int (length (entries ts)) = maxSegmentNum
                then (\<exists>d0 u rest.
                        entries ts = ExtInf d0 u # rest
                        \<and> entries ts'
                            = rest @ [ExtInf (segmentDuration seg) (nameOnly seg @ ''.mp4'')]
                        \<and> files ts' = insert (nameOnly seg @ ''.mp4'') (files ts) - {u}
                        \<and> media_sequence ts' = map_option Suc (media_sequence ts)
                        \<and> full)
                else entries ts'
                       = entries ts @ [ExtInf (segmentDuration seg) (nameOnly seg @ ''.mp4'')]
                     \<and> files ts' = insert (nameOnly seg @ ''.mp4'') (files ts)
                     \<and> media_sequence ts' = media_sequence ts
                     \<and> \<not> full))"
proof -
  from run_track_shape [OF assms(1) initial_shape _ assms(2)] assms(1)
  obtain q items where shape: "playlist_shape ts q items"
    and len: "int (length items) \<le> maxSegmentNum"
    and count: "q + length items = appended segs"
    by auto
  have e: "entries ts = items" and m: "media_sequence ts = Some q"
    using shape shape_entries shape_sequence by blast+
  have step: "if int (length (entries ts)) = maxSegmentNum
                then (\<exists>d0 u rest.
                        entries ts = ExtInf d0 u # rest
                        \<and> entries ts'
                            = rest @ [ExtInf (segmentDuration seg) (nameOnly seg @ ''.mp4'')]
                        \<and> files ts' = insert (nameOnly seg @ ''.mp4'') (files ts) - {u}
                        \<and> media_sequence ts' = map_option Suc (media_sequence ts)
                        \<and> full)
                else entries ts'
                       = entries ts @ [ExtInf (segmentDuration seg) (nameOnly seg @ ''.mp4'')]
                     \<and> files ts' = insert (nameOnly seg @ ''.mp4'') (files ts)
                     \<and> media_sequence ts' = media_sequence ts
                     \<and> \<not> full"
    if "segmentName seg \<noteq> initFile" and "process_segment maxSegmentNum seg ts = Inr (ts', full)"
    for seg ts' full
    using process_segment_step [OF shape that(2) that(1)]
    by (auto simp: e m dest: shape_entries shape_sequence split: if_splits)
  have bound: "int (length (entries ts)) \<le> maxSegmentNum"
    using len by (simp add: e)
  have sequence: "media_sequence ts = Some (appended segs - length (entries ts))"
    using count by (simp add: e m)
  have evicted: "length (entries ts) \<le> appended segs"
    using count by (simp add: e)
  from bound sequence evicted step show ?thesis
    by blast
qed


lemma run_track_append:
  "run_track n (xs @ ys) ts =
     (case run_track n xs ts of Inl e \<Rightarrow> Inl e | Inr ts' \<Rightarrow> run_track n ys ts')"
  by (induction xs arbitrary: ts) (auto split: sum.splits)

lemma download_segments_tracks:
  "download_segments n audioList videoList st = Inr st' \<Longrightarrow>
     run_track n audioList (audio st) = Inr (audio st')
     \<and> run_track n (take (length audioList) videoList) (video st) = Inr (video st')"
proof (induction audioList arbitrary: videoList st)
  case Nil
  then show ?case by simp
next
  case (Cons a audioList)
  from Cons.prems obtain ta fa v videoList' tv fv where
        pa: "process_segment n a (audio st) = Inr (ta, fa)"
    and vs: "videoList = v # videoList'"
    and pv: "process_segment n v (video st) = Inr (tv, fv)"
    and rest: "download_segments n audioList videoList' \<lparr>audio = ta, video = tv\<rparr> = Inr st'"
    by (auto split: sum.splits list.splits)
  from Cons.IH [OF rest] pa pv vs show ?case by simp
qed

lemma run_cycles_tracks:
  "run_cycles n cycles st = Inr st' \<Longrightarrow>
     run_track n (concat (map fst cycles)) (audio st) = Inr (audio st')
     \<and> run_track n (concat (map (\<lambda>(a, v). take (length a) v) cycles)) (video st)
         = Inr (video st')"
proof (induction cycles arbitrary: st)
  case Nil
  then show ?case by simp
next
  case (Cons c cycles)
  obtain a v where c: "c = (a, v)" by (cases c)
  from Cons.prems c obtain st1 where
        one: "download_segments n a v st = Inr st1"
    and rest: "run_cycles n cycles st1 = Inr st'"
    by (auto split: sum.splits)
  from download_segments_tracks [OF one] Cons.IH [OF rest] show ?case
    by (simp add: c run_track_append)
qed

lemma five_segments_run: "run_track 3 five_segments initial_track = Inr after_five"
  by (simp add: five_segments_def init_seg_def seg_of_def initial_track_def after_five_def
        process_segment_def update_playlist_def splice_indexOf_def initFile_def Let_def
        insert_Diff_if insert_commute)

theorem rolling_playlist_witness:
  "run_track 3 five_segments initial_track = Inr after_five
   \<and> int (length (entries after_five)) \<le> 3
   \<and> media_sequence after_five = Some (5 - 3)
   \<and> entries after_five = [ExtInf 6 ''3.mp4'', ExtInf 6 ''4.mp4'', ExtInf 6 ''5.mp4'']
   \<and> files after_five = {''3.mp4'', ''4.mp4'', ''5.mp4''}
   \<and> process_segment 3 (seg_of ''6'') after_five
       = Inr (\<lparr>template = [Header 3, ExtInf 6 ''4.mp4'', ExtInf 6 ''5.mp4'', ExtInf 6 ''6.mp4''],
               files = {''4.mp4'', ''5.mp4'', ''6.mp4''}\<rparr>, True)"
proof -
  have one: "(1 :: int) \<le> 3" by simp
  have count: "appended five_segments = 5" "length (entries after_five) = 3"
    by (simp_all add: appended_def five_segments_def init_seg_def seg_of_def initFile_def
          entries_def after_five_def)
  have sixth: "process_segment 3 (seg_of ''6'') after_five
       = Inr (\<lparr>template = [Header 3, ExtInf 6 ''4.mp4'', ExtInf 6 ''5.mp4'', ExtInf 6 ''6.mp4''],
               files = {''4.mp4'', ''5.mp4'', ''6.mp4''}\<rparr>, True)"
    by (auto simp: seg_of_def after_five_def process_segment_def update_playlist_def
          splice_indexOf_def initFile_def Let_def)
  from rolling_playlist [OF one five_segments_run]
  have "int (length (entries after_five)) \<le> 3"
    and "media_sequence after_five = Some (appended five_segments - length (entries after_five))"
    by blast+
  then show ?thesis
    using five_segments_run sixth count
    by (simp add: entries_def after_five_def)
qed

text \<open>
  C1, as stated, for every run: with \<open>maxSegmentNum = 0\<close> the first append finds the
  playlist at \<open>maxSegmentNum\<close> entries, has no eldest entry to remove and raises a
  \<open>TypeError\<close>; with \<open>maxSegmentNum = -1\<close> the test for a full playlist never holds and
  the first append leaves one entry, more than \<open>maxSegmentNum\<close>.
\<close>

theorem rolling_playlist_counterexample:
  "int (length (entries (initial_track :: nat track_state))) = 0
   \<and> process_segment 0 (seg_of ''1'') initial_track = Inl TypeError
   \<and> run_track (- 1) [seg_of ''1''] initial_track
       = Inr \<lparr>template = [Header 0, ExtInf 6 ''1.mp4''], files = {''1.mp4''}\<rparr>
   \<and> \<not> int (length (entries \<lparr>template = [Header 0, ExtInf (6 :: nat) ''1.mp4''],
                               files = {''1.mp4''}\<rparr>)) \<le> - 1"
  by (simp add: seg_of_def initial_track_def process_segment_def update_playlist_def
        splice_indexOf_def initFile_def entries_def Let_def)

section \<open>Properties: \<open>pssh\<close> boxes of an unsupported version\<close>

lemma parseNext_box_full:
  "parseNext_box defs a r p s = Inr ((box, defn), r') \<Longrightarrow>
     (box_version box = None \<longleftrightarrow> box_flags box = None)"
  unfolding parseNext_box_def Let_def
  by (auto elim!: then_do_Inr_E split: if_splits option.splits)

lemma parsePsshBox_version_2:
  "box_version box = Some v \<Longrightarrow> 2 \<le> v \<Longrightarrow> box_flags box = Some f \<Longrightarrow>
     parsePsshBox box st = Inr (st, False)"
  by (simp add: parsePsshBox_def)

text \<open>
  C10: for a \<open>pssh\<close> box whose version is 2 or greater, \<open>parsePsshBox_\<close> returns normally
  with the recorded system IDs, key IDs and box bytes unchanged and without stopping the
  parser; and when \<open>parseNext\<close> has read such a box, the parse loop goes on with that same
  state at the reader position behind the box.
\<close>

theorem pssh_version_2_skipped:
  "(box_version box = Some v \<longrightarrow> 2 \<le> v \<longrightarrow> box_flags box = Some f \<longrightarrow>
      parsePsshBox box st = Inr (st, False))
   \<and> (hasMoreData reader \<longrightarrow>
        parseNext_box pssh_boxDefinitions absStart reader partialOkay stopOnPartial
          = Inr ((box, Callback parsePsshBox), reader') \<longrightarrow>
        box_version box = Some v \<longrightarrow> 2 \<le> v \<longrightarrow>
          parse_boxes pssh_boxDefinitions absStart partialOkay stopOnPartial reader st False
            = parse_boxes pssh_boxDefinitions absStart partialOkay stopOnPartial reader' st False)"
proof (intro conjI impI)
  assume "box_version box = Some v" and "2 \<le> v" and "box_flags box = Some f"
  then show "parsePsshBox box st = Inr (st, False)"
    by (rule parsePsshBox_version_2)
next
  assume more: "hasMoreData reader"
    and hdr: "parseNext_box pssh_boxDefinitions absStart reader partialOkay stopOnPartial
                = Inr ((box, Callback parsePsshBox), reader')"
    and v: "box_version box = Some v" "2 \<le> v"
  from parseNext_box_full [OF hdr] v obtain f where f: "box_flags box = Some f"
    by (cases "box_flags box") auto
  have cb: "parsePsshBox box st = Inr (st, False)"
    using v f by (rule parsePsshBox_version_2)
  show "parse_boxes pssh_boxDefinitions absStart partialOkay stopOnPartial reader st False
          = parse_boxes pssh_boxDefinitions absStart partialOkay stopOnPartial reader' st False"
    by (subst parse_boxes.simps) (simp add: more hdr cb)
qed


lemma pssh_types: "typeFromString ''pssh'' = 0x70737368" "typeFromString ''moov'' = 0x6d6f6f76"
  by (simp_all add: typeFromString_def)

lemma v2_box_header:
  "parseNext_box pssh_boxDefinitions 0 two_pssh_boxes False False
     = Inr ((\<lparr>box_partialOkay = False, box_version = Some 2, box_flags = Some 0,
              box_reader = new_data_view_reader
                 \<lparr>before = take 12 pssh_v2_box, content = drop 12 pssh_v2_box,
                  after = pssh_v0_box\<rparr> False,
              box_size = 32, box_start = 0, box_has64BitSize = False\<rparr>, Callback parsePsshBox),
            two_pssh_boxes\<lparr>position := 32\<rparr>)"
  by (simp add: parseNext_box_def two_pssh_boxes_def pssh_v2_box_def pssh_v0_box_def
      widevine_system_id_def new_data_view_reader_def new_Uint8Array_def readUint32_def
      getUint_def byteLength_def be_nat_def pssh_boxDefinitions_def pssh_types readBytes_def
      toUint8_def byteOffset_def Let_def)

lemma v0_box_parsed:
  "parse_boxes pssh_boxDefinitions 0 False False (two_pssh_boxes\<lparr>position := 32\<rparr>) empty_pssh False
     = Inr (\<lparr>systemIds = [''edef8ba979d64acea3c827dcd51d21ed''], cencKeyIds = [],
             data = [\<lparr>before = pssh_v2_box, content = pssh_v0_box, after = []\<rparr>]\<rparr>, False)"
  by (simp add: parseNext_box_def two_pssh_boxes_def pssh_v2_box_def pssh_v0_box_def
      widevine_system_id_def new_data_view_reader_def new_Uint8Array_def readUint32_def
      getUint_def byteLength_def be_nat_def pssh_boxDefinitions_def pssh_types readBytes_def
      toUint8_def byteOffset_def Let_def hasMoreData_def parsePsshBox_def empty_pssh_def
      toHex_def toString16_def hexDigit_def char_of_def bit_Suc_0_iff)

text \<open>A version 2 box followed by a version 0 box: only the second one is recorded.\<close>

theorem pssh_version_2_skipped_witness:
  "new_pssh (new_Uint8Array (pssh_v2_box @ pssh_v0_box))
     = Inr \<lparr>systemIds = [''edef8ba979d64acea3c827dcd51d21ed''], cencKeyIds = [],
            data = [\<lparr>before = pssh_v2_box, content = pssh_v0_box, after = []\<rparr>]\<rparr>"
proof -
  have more: "hasMoreData two_pssh_boxes"
    by (simp add: hasMoreData_def two_pssh_boxes_def new_data_view_reader_def
        new_Uint8Array_def byteLength_def pssh_v2_box_def)
  have "parse_boxes pssh_boxDefinitions 0 False False two_pssh_boxes empty_pssh False
          = parse_boxes pssh_boxDefinitions 0 False False (two_pssh_boxes\<lparr>position := 32\<rparr>)
              empty_pssh False"
    using pssh_version_2_skipped [of _ 2 0 empty_pssh two_pssh_boxes 0 False False
        "two_pssh_boxes\<lparr>position := 32\<rparr>"] more v2_box_header
    by (simp del: parse_boxes.simps)
  then show ?thesis
    by (simp add: new_pssh_def parse_def v0_box_parsed two_pssh_boxes_def [symmetric]
        empty_pssh_def [symmetric] del: parse_boxes.simps)
qed

section \<open>Properties: building and parsing a \<open>pssh\<close> box\<close>

lemma hexValue_less: "isHexDigit c \<Longrightarrow> hexValue c < 16"
  by (auto simp: isHexDigit_def hexValue_def Let_def)

lemma hexDigit_hexValue: "isHexDigit c \<Longrightarrow> [hexDigit (hexValue c)] = toLowerCase [c]"
proof -
  assume h: "isHexDigit c"
  define n where "n = (of_char c :: nat)"
  have c: "char_of n = c" by (simp add: n_def)
  from h consider "48 \<le> n \<and> n \<le> 57" | "97 \<le> n \<and> n \<le> 102" | "65 \<le> n \<and> n \<le> 70"
    by (auto simp: isHexDigit_def Let_def n_def)
  then show ?thesis
  proof cases
    case 1
    then have f: "n - 48 < 10" "48 + (n - 48) = n" "\<not> (65 \<le> n \<and> n \<le> 90)" "n \<le> 57"
      by auto
    show ?thesis
      by (simp add: hexDigit_def hexValue_def toLowerCase_def Let_def n_def [symmetric] c f)
  next
    case 2
    then have f: "\<not> n - 87 < 10" "87 + (n - 87) = n" "\<not> (65 \<le> n \<and> n \<le> 90)" "\<not> n \<le> 57"
      "97 \<le> n"
      by auto
    show ?thesis
      by (simp add: hexDigit_def hexValue_def toLowerCase_def Let_def n_def [symmetric] c f)
  next
    case 3
    then have f: "\<not> n - 55 < 10" "87 + (n - 55) = n + 32" "65 \<le> n \<and> n \<le> 90" "\<not> n \<le> 57"
      "\<not> 97 \<le> n"
      by auto
    show ?thesis
      by (simp add: hexDigit_def hexValue_def toLowerCase_def Let_def n_def [symmetric] f)
  qed
qed

lemma toString16_pair:
  assumes "va < 16" "vb < 16"
  shows "(let s = toString16 (16 * va + vb) in if length s = 1 then CHR ''0'' # s else s)
           = [hexDigit va, hexDigit vb]"
proof (cases "va = 0")
  case True
  have "hexDigit 0 = CHR ''0''"
    by (simp add: hexDigit_def char_of_def bit_Suc_0_iff)
  with True assms show ?thesis
    by (simp add: toString16_def)
next
  case False
  with assms show ?thesis
    by (simp add: toString16_def)
qed

lemma parseInt16_pair:
  assumes "isHexDigit a" "isHexDigit b"
  shows "parseInt16 [a, b] = Some (int (16 * hexValue a + hexValue b))"
proof -
  have a: "\<not> isWhiteSpace a" "a \<noteq> CHR ''-''" "a \<noteq> CHR ''+''"
    using assms(1) by (auto simp: isHexDigit_def isWhiteSpace_def Let_def)
  have b: "b \<noteq> CHR ''x''" "b \<noteq> CHR ''X''"
    using assms(2) by (auto simp: isHexDigit_def Let_def)
  show ?thesis
    using a b assms by (simp add: parseInt16_def Let_def)
qed

lemma fromHex_Cons:
  "fromHex (a # b # k)
     = (case parseInt16 [a, b] of None \<Rightarrow> 0 | Some v \<Rightarrow> word_of_int v) # fromHex k"
proof -
  have "[0..<length (a # b # k) div 2] = 0 # map Suc [0..<length k div 2]"
    by (simp add: upt_conv_Cons map_Suc_upt del: upt_Suc)
  then show ?thesis
    by (simp add: fromHex_def comp_def del: upt_Suc)
qed

lemma length_fromHex: "length (fromHex k) = length k div 2"
  by (simp add: fromHex_def)

lemma toLowerCase_Cons: "toLowerCase (c # cs) = toLowerCase [c] @ toLowerCase cs"
  by (simp add: toLowerCase_def)

lemma toHex_fromHex_content:
  "length k = 2 * n \<Longrightarrow> \<forall>c \<in> set k. isHexDigit c \<Longrightarrow> content d = fromHex k
     \<Longrightarrow> toHex d = toLowerCase k"
proof (induction n arbitrary: k d)
  case 0
  then show ?case by (simp add: toHex_def toLowerCase_def fromHex_def)
next
  case (Suc n)
  then obtain a b k' where k: "k = a # b # k'"
    by (cases k; cases "tl k") auto
  with Suc.prems have ab: "isHexDigit a" "isHexDigit b" and k': "length k' = 2 * n"
    "\<forall>c \<in> set k'. isHexDigit c"
    by auto
  have rest: "toHex (new_Uint8Array (fromHex k')) = toLowerCase k'"
    by (rule Suc.IH [OF k']) (simp add: new_Uint8Array_def)
  have v: "16 * hexValue a + hexValue b < 256"
    using hexValue_less [OF ab(1)] hexValue_less [OF ab(2)] by simp
  have "unat (word_of_int (int N) :: byte) = N mod 2 ^ LENGTH(8)" for N
    by (simp only: of_int_of_nat_eq unat_of_nat)
  from this [of "16 * hexValue a + hexValue b"]
  have "unat (word_of_int (int (16 * hexValue a + hexValue b)) :: byte)
          = 16 * hexValue a + hexValue b"
    using v by simp
  then have "toHex d = [hexDigit (hexValue a), hexDigit (hexValue b)] @ toLowerCase k'"
    using rest toString16_pair [OF hexValue_less [OF ab(1)] hexValue_less [OF ab(2)]]
    by (simp add: toHex_def Suc.prems(3) k fromHex_Cons parseInt16_pair [OF ab]
        new_Uint8Array_def)
  also have "\<dots> = toLowerCase k"
    using hexDigit_hexValue [OF ab(1)] hexDigit_hexValue [OF ab(2)]
    by (simp add: k toLowerCase_def)
  finally show ?case .
qed

lemma length_be32: "length (be32 v) = 4"
  by (simp add: be32_def)

lemma be_nat_be32: "v < 2 ^ 32 \<Longrightarrow> be_nat (be32 v) = v"
proof -
  assume v: "v < 2 ^ 32"
  have u: "unat (of_nat n :: byte) = n mod 256" for n
    by (simp add: unat_of_nat)
  define a where "a = v div 256"
  define b where "b = a div 256"
  define c where "c = b div 256"
  have d: "v div 2 ^ 8 = a" "v div 2 ^ 16 = b" "v div 2 ^ 24 = c"
    by (simp_all add: a_def b_def c_def div_mult2_eq)
  have "c < 256"
    using v by (simp add: a_def b_def c_def div_mult2_eq less_mult_imp_div_less)
  then have c: "c mod 256 = c"
    by simp
  have "be_nat (be32 v) = v mod 256 + 256 * (a mod 256 + 256 * (b mod 256 + 256 * (c mod 256)))"
    by (simp only: be32_def be_nat_def rev.simps append.simps le_nat.simps u d) simp
  also have "\<dots> = v mod 256 + 256 * (a mod 256 + 256 * (b mod 256 + 256 * (b div 256)))"
    unfolding c by (simp only: c_def)
  also have "\<dots> = v mod 256 + 256 * (a mod 256 + 256 * (a div 256))"
    by (simp only: mod_mult_div_eq b_def)
  also have "\<dots> = v"
    by (simp only: mod_mult_div_eq a_def)
  finally show ?thesis .
qed

lemma set_bytes_fill:
  "length src \<le> m \<Longrightarrow>
     set_bytes (pre @ replicate m 0) (length pre) src
       = Inr ((pre @ src) @ replicate (m - length src) 0)"
  by (simp add: set_bytes_def)

lemma write_key_ids_fill:
  "\<forall>k \<in> set ks. length k = 32 \<Longrightarrow> 16 * length ks \<le> m \<Longrightarrow>
     write_key_ids (pre @ replicate m 0) (length pre) ks
       = Inr ((pre @ concat (map fromHex ks)) @ replicate (m - 16 * length ks) 0,
              length pre + 16 * length ks)"
proof (induction ks arbitrary: pre m)
  case Nil
  then show ?case by simp
next
  case (Cons k ks)
  then have len: "length (fromHex k) = 16" and m: "16 \<le> m"
    by (simp_all add: length_fromHex)
  have step: "set_bytes (pre @ replicate m 0) (length pre) (fromHex k)
                = Inr ((pre @ fromHex k) @ replicate (m - 16) 0)"
    using set_bytes_fill [of "fromHex k" m pre] m by (simp add: len)
  have rest: "write_key_ids ((pre @ fromHex k) @ replicate (m - 16) 0)
                (length (pre @ fromHex k)) ks
              = Inr (((pre @ fromHex k) @ concat (map fromHex ks))
                       @ replicate (m - 16 - 16 * length ks) 0,
                     length (pre @ fromHex k) + 16 * length ks)"
    using Cons.prems by (intro Cons.IH) auto
  show ?case
    using rest by (simp add: step len Let_def)
qed

lemma createPssh_layout:
  assumes sid: "length systemId = 16" and ks: "\<forall>k \<in> set keys. length k = 32"
  shows "createPssh dat systemId keys 1 = Inr (pssh_v1_bytes dat systemId keys)"
proof -
  define n where "n = length keys"
  define l where "l = length dat"
  define psshSize where "psshSize = 36 + 16 * n + l"
  define kids where "kids = concat (map fromHex keys)"
  have kl: "length kids = 16 * n"
    using ks unfolding kids_def n_def
    by (induction keys) (simp_all add: length_fromHex)
  have b1: "setUint32 (replicate psshSize 0) 0 psshSize = Inr (be32 psshSize @ replicate (psshSize - 4) 0)"
    using set_bytes_fill [of "be32 psshSize" psshSize "[]"]
    by (simp add: setUint32_def length_be32 psshSize_def)
  have b2: "setUint32 (be32 psshSize @ replicate (psshSize - 4) 0) 4 0x70737368
              = Inr ((be32 psshSize @ be32 0x70737368) @ replicate (psshSize - 8) 0)"
    using set_bytes_fill [of "be32 0x70737368" "psshSize - 4" "be32 psshSize"]
    by (simp add: setUint32_def length_be32 psshSize_def)
  let ?h = "be32 psshSize @ be32 0x70737368 @ be32 0x01000000"
  have b3: "setUint32 ((be32 psshSize @ be32 0x70737368) @ replicate (psshSize - 8) 0) 8 0x01000000
              = Inr (?h @ replicate (psshSize - 12) 0)"
    using set_bytes_fill [of "be32 0x01000000" "psshSize - 8" "be32 psshSize @ be32 0x70737368"]
    by (simp add: setUint32_def length_be32 psshSize_def)
  have b4: "set_bytes (?h @ replicate (psshSize - 12) 0) 12 systemId
              = Inr ((?h @ systemId) @ replicate (psshSize - 28) 0)"
    using set_bytes_fill [of systemId "psshSize - 12" ?h]
    by (simp add: length_be32 psshSize_def sid)
  have b5: "setUint32 ((?h @ systemId) @ replicate (psshSize - 28) 0) 28 n
              = Inr ((?h @ systemId @ be32 n) @ replicate (psshSize - 32) 0)"
    using set_bytes_fill [of "be32 n" "psshSize - 28" "?h @ systemId"]
    by (simp add: setUint32_def length_be32 psshSize_def sid)
  have b6: "write_key_ids ((?h @ systemId @ be32 n) @ replicate (psshSize - 32) 0) 32 keys
              = Inr ((?h @ systemId @ be32 n @ kids) @ replicate (psshSize - 32 - 16 * n) 0,
                     32 + 16 * n)"
    using write_key_ids_fill [of keys "psshSize - 32" "?h @ systemId @ be32 n"] ks
    by (simp add: length_be32 psshSize_def sid n_def kids_def)
  have b7: "setUint32 ((?h @ systemId @ be32 n @ kids) @ replicate (psshSize - 32 - 16 * n) 0)
                (32 + 16 * n) l
              = Inr ((?h @ systemId @ be32 n @ kids @ be32 l) @ replicate l 0)"
    using set_bytes_fill [of "be32 l" "psshSize - 32 - 16 * n" "?h @ systemId @ be32 n @ kids"]
    by (simp add: setUint32_def length_be32 psshSize_def sid kl)
  have b8: "set_bytes ((?h @ systemId @ be32 n @ kids @ be32 l) @ replicate l 0)
                (32 + 16 * n + 4) dat
              = Inr (?h @ systemId @ be32 n @ kids @ be32 l @ dat)"
    using set_bytes_fill [of dat l "?h @ systemId @ be32 n @ kids @ be32 l"]
    by (simp add: length_be32 sid kl l_def)
  have sz: "4 + 4 + 4 + length systemId + 4 + length dat
              + (if (1::int) > 0 then 4 + 16 * length keys else 0) = psshSize"
    by (simp add: psshSize_def sid n_def l_def)
  show ?thesis
    unfolding createPssh_def Let_def sz
    using b1 b2 b3 b4 b5 b6 b7 b8
    by (simp add: sid n_def [symmetric] l_def [symmetric] pssh_v1_bytes_def kids_def psshSize_def)
qed

lemma readUint32_at:
  "v < 2 ^ 32 \<Longrightarrow>
     readUint32 \<lparr>dataView = \<lparr>before = b, content = pre @ be32 v @ post, after = a\<rparr>,
                 littleEndian = False, position = length pre\<rparr>
       = Inr (v, \<lparr>dataView = \<lparr>before = b, content = pre @ be32 v @ post, after = a\<rparr>,
                  littleEndian = False, position = length pre + 4\<rparr>)"
  by (simp add: readUint32_def getUint_def byteLength_def length_be32 be_nat_be32)

lemma readBytes_at:
  "readBytes \<lparr>dataView = \<lparr>before = b, content = pre @ bs @ post, after = a\<rparr>,
              littleEndian = le, position = length pre\<rparr> (int (length bs))
     = Inr (\<lparr>before = b @ pre, content = bs, after = post @ a\<rparr>,
            \<lparr>dataView = \<lparr>before = b, content = pre @ bs @ post, after = a\<rparr>,
             littleEndian = le, position = length pre + length bs\<rparr>)"
  by (simp add: readBytes_def toUint8_def byteLength_def byteOffset_def Let_def nat_add_distrib)

lemma read_key_ids_at:
  "\<forall>k \<in> set ks. length k = 32 \<and> (\<forall>c \<in> set k. isHexDigit c) \<Longrightarrow>
     read_key_ids (length ks)
        \<lparr>dataView = \<lparr>before = b, content = pre @ concat (map fromHex ks) @ post, after = a\<rparr>,
         littleEndian = le, position = length pre\<rparr> st
       = Inr (st\<lparr>cencKeyIds := cencKeyIds st @ map toLowerCase ks\<rparr>)"
proof (induction ks arbitrary: pre st)
  case Nil
  then show ?case by simp
next
  case (Cons k ks)
  then have k: "length k = 2 * 16" "\<forall>c \<in> set k. isHexDigit c"
    and ks: "\<forall>k \<in> set ks. length k = 32 \<and> (\<forall>c \<in> set k. isHexDigit c)"
    by auto
  have len: "length (fromHex k) = 16"
    using k by (simp add: length_fromHex)
  let ?post = "concat (map fromHex ks) @ post"
  have hex: "toHex \<lparr>before = b @ pre, content = fromHex k,
                     after = concat (map fromHex ks) @ post @ a\<rparr> = toLowerCase k"
    by (rule toHex_fromHex_content [OF k]) simp
  have rd: "readBytes \<lparr>dataView = \<lparr>before = b, content = pre @ fromHex k @ ?post, after = a\<rparr>,
                        littleEndian = le, position = length pre\<rparr> 16
              = Inr (\<lparr>before = b @ pre, content = fromHex k, after = ?post @ a\<rparr>,
                     \<lparr>dataView = \<lparr>before = b, content = pre @ fromHex k @ ?post, after = a\<rparr>,
                      littleEndian = le, position = length pre + 16\<rparr>)"
    using readBytes_at [of b pre "fromHex k" ?post a le] by (simp add: len)
  have rest: "read_key_ids (length ks)
                \<lparr>dataView = \<lparr>before = b, content = (pre @ fromHex k) @ ?post, after = a\<rparr>,
                 littleEndian = le, position = length (pre @ fromHex k)\<rparr>
                (st\<lparr>cencKeyIds := cencKeyIds st @ [toLowerCase k]\<rparr>)
              = Inr (st\<lparr>cencKeyIds := cencKeyIds st @ [toLowerCase k],
                         cencKeyIds := cencKeyIds (st\<lparr>cencKeyIds := cencKeyIds st @ [toLowerCase k]\<rparr>)
                                         @ map toLowerCase ks\<rparr>)"
    using Cons.IH [OF ks, of "pre @ fromHex k" "st\<lparr>cencKeyIds := cencKeyIds st @ [toLowerCase k]\<rparr>"]
    by simp
  show ?case
    using rest by (simp add: rd hex len)
qed

lemma parseNext_pssh_v1:
  assumes len: "length payload + 12 = psshSize" and pos: "0 < length payload"
    and bound: "psshSize < 2 ^ 32"
  shows "parseNext_box pssh_boxDefinitions 0
           (new_data_view_reader
              (new_Uint8Array (be32 psshSize @ be32 0x70737368 @ be32 0x01000000 @ payload)) False)
           False False
         = Inr ((\<lparr>box_partialOkay = False, box_version = Some 1, box_flags = Some 0,
                  box_reader = new_data_view_reader
                    \<lparr>before = be32 psshSize @ be32 0x70737368 @ be32 0x01000000,
                     content = payload, after = []\<rparr> False,
                  box_size = psshSize, box_start = 0, box_has64BitSize = False\<rparr>,
                 Callback parsePsshBox),
                \<lparr>dataView = new_Uint8Array
                    (be32 psshSize @ be32 0x70737368 @ be32 0x01000000 @ payload),
                 littleEndian = False, position = psshSize\<rparr>)"
proof -
  let ?buf = "be32 psshSize @ be32 0x70737368 @ be32 0x01000000 @ payload"
  let ?dv = "\<lparr>before = [], content = ?buf, after = []\<rparr>"
  let ?r = "\<lambda>p. \<lparr>dataView = ?dv, littleEndian = False, position = p\<rparr>"
  have r1: "readUint32 (?r 0) = Inr (psshSize, ?r 4)"
    using readUint32_at [OF bound, of "[]" "[]"] by simp
  have r2: "readUint32 (?r 4) = Inr (0x70737368, ?r 8)"
    using readUint32_at [of "0x70737368" "[]" "be32 psshSize"] by (simp add: length_be32)
  have r3: "readUint32 (?r 8) = Inr (0x01000000, ?r 12)"
    using readUint32_at [of "0x01000000" "[]" "be32 psshSize @ be32 0x70737368"]
    by (simp add: length_be32)
  have r4: "readBytes (?r 12) (int (length payload))
              = Inr (\<lparr>before = be32 psshSize @ be32 0x70737368 @ be32 0x01000000,
                       content = payload, after = []\<rparr>, ?r psshSize)"
    using readBytes_at [of "[]" "be32 psshSize @ be32 0x70737368 @ be32 0x01000000" payload "[]" "[]"
        False]
    by (simp add: length_be32 len [symmetric])
  have sz: "int psshSize - 12 = int (length payload)" "psshSize \<noteq> 0" "psshSize \<noteq> Suc 0"
    "12 < psshSize"
    using len pos by auto
  show ?thesis
    by (simp add: parseNext_box_def new_data_view_reader_def new_Uint8Array_def r1 r2 r3 r4 sz
        pssh_boxDefinitions_def pssh_types pos Let_def)
qed

lemma toHex_content: "content d = content d' \<Longrightarrow> toHex d = toHex d'"
  by (simp add: toHex_def)

lemma parsePsshBox_v1:
  assumes hdr: "length hdr = 12" and sid: "length systemId = 16"
    and ks: "\<forall>k \<in> set keys. length k = 32 \<and> (\<forall>c \<in> set k. isHexDigit c)"
    and n: "length keys < 2 ^ 32"
    and sz: "psshSize = 12 + length (systemId @ be32 (length keys) @ concat (map fromHex keys) @ rest)"
  shows "parsePsshBox
           \<lparr>box_partialOkay = False, box_version = Some 1, box_flags = Some 0,
            box_reader = new_data_view_reader
              \<lparr>before = hdr,
               content = systemId @ be32 (length keys) @ concat (map fromHex keys) @ rest,
               after = []\<rparr> False,
            box_size = psshSize, box_start = 0, box_has64BitSize = False\<rparr> st
         = Inr (st\<lparr>data := data st
                       @ [new_Uint8Array (hdr @ systemId @ be32 (length keys)
                                            @ concat (map fromHex keys) @ rest)],
                   systemIds := systemIds st @ [toHex (new_Uint8Array systemId)],
                   cencKeyIds := cencKeyIds st @ map toLowerCase keys\<rparr>, False)"
proof -
  let ?kids = "concat (map fromHex keys)"
  let ?payload = "systemId @ be32 (length keys) @ ?kids @ rest"
  let ?dv = "\<lparr>before = hdr, content = ?payload, after = []\<rparr>"
  let ?r = "\<lambda>p. \<lparr>dataView = ?dv, littleEndian = False, position = p\<rparr>"
  have whole: "toUint8 ?dv (- 12) (Some (int psshSize)) = new_Uint8Array (hdr @ ?payload)"
    by (simp add: toUint8_def byteOffset_def byteLength_def hdr sz new_Uint8Array_def Let_def)
  have r1: "readBytes (?r 0) 16
              = Inr (\<lparr>before = hdr, content = systemId,
                       after = be32 (length keys) @ ?kids @ rest\<rparr>, ?r 16)"
    using readBytes_at [of hdr "[]" systemId "be32 (length keys) @ ?kids @ rest" "[]" False]
    by (simp add: sid)
  have r2: "readUint32 (?r 16) = Inr (length keys, ?r 20)"
    using readUint32_at [OF n, of hdr systemId "?kids @ rest" "[]"] by (simp add: sid)
  have r3: "read_key_ids (length keys) (?r 20) st' 
              = Inr (st'\<lparr>cencKeyIds := cencKeyIds st' @ map toLowerCase keys\<rparr>)" for st'
    using read_key_ids_at [OF ks, of hdr "systemId @ be32 (length keys)" rest "[]" False st']
    by (simp add: sid length_be32)
  have hex: "toHex \<lparr>before = hdr, content = systemId,
                     after = be32 (length keys) @ ?kids @ rest\<rparr> = toHex (new_Uint8Array systemId)"
    by (rule toHex_content) (simp add: new_Uint8Array_def)
  show ?thesis
    by (simp add: parsePsshBox_def new_data_view_reader_def byteOffset_def hdr whole r1 r2 r3 hex
        Let_def)
qed

lemma new_pssh_v1_bytes:
  assumes "length systemId = 16"
    and "\<forall>k \<in> set keys. length k = 32 \<and> (\<forall>c \<in> set k. isHexDigit c)"
    and "36 + 16 * length keys + length dat < 2 ^ 32"
  shows "new_pssh (new_Uint8Array (pssh_v1_bytes dat systemId keys))
           = Inr \<lparr>systemIds = [toHex (new_Uint8Array systemId)],
                  cencKeyIds = map toLowerCase keys,
                  data = [new_Uint8Array (pssh_v1_bytes dat systemId keys)]\<rparr>"
proof -
  define psshSize where "psshSize = 36 + 16 * length keys + length dat"
  define rest where "rest = be32 (length dat) @ dat"
  define payload where
    "payload = systemId @ be32 (length keys) @ concat (map fromHex keys) @ rest"
  define hdr where "hdr = be32 psshSize @ be32 0x70737368 @ be32 0x01000000"
  have kl: "length (concat (map fromHex keys)) = 16 * length keys"
    using assms(2) by (induction keys) (simp_all add: length_fromHex)
  have len: "length payload + 12 = psshSize"
    by (simp add: payload_def rest_def psshSize_def assms(1) length_be32 kl)
  have pos: "0 < length payload"
    by (simp add: payload_def assms(1))
  have bound: "psshSize < 2 ^ 32" and n: "length keys < 2 ^ 32"
    using assms(3) by (simp_all add: psshSize_def)
  have box: "pssh_v1_bytes dat systemId keys = hdr @ payload"
    by (simp add: pssh_v1_bytes_def hdr_def payload_def rest_def psshSize_def)
  let ?r = "new_data_view_reader (new_Uint8Array (hdr @ payload)) False"
  let ?st = "\<lparr>systemIds = [], cencKeyIds = [], data = []\<rparr>"
  have header: "parseNext_box pssh_boxDefinitions 0 ?r False False
         = Inr ((\<lparr>box_partialOkay = False, box_version = Some 1, box_flags = Some 0,
                  box_reader = new_data_view_reader
                    \<lparr>before = hdr, content = payload, after = []\<rparr> False,
                  box_size = psshSize, box_start = 0, box_has64BitSize = False\<rparr>,
                 Callback parsePsshBox),
                \<lparr>dataView = new_Uint8Array (hdr @ payload),
                 littleEndian = False, position = psshSize\<rparr>)"
    using parseNext_pssh_v1 [OF len pos bound] by (simp add: hdr_def)
  have callback: "parsePsshBox
           \<lparr>box_partialOkay = False, box_version = Some 1, box_flags = Some 0,
            box_reader = new_data_view_reader
              \<lparr>before = hdr, content = payload, after = []\<rparr> False,
            box_size = psshSize, box_start = 0, box_has64BitSize = False\<rparr> ?st
         = Inr (\<lparr>systemIds = [toHex (new_Uint8Array systemId)],
                  cencKeyIds = map toLowerCase keys,
                  data = [new_Uint8Array (hdr @ payload)]\<rparr>, False)"
    using parsePsshBox_v1 [of hdr systemId keys psshSize rest ?st, OF _ assms(1,2) n]
      len
    by (simp add: hdr_def length_be32 payload_def [symmetric])
  have more: "hasMoreData ?r"
    using pos by (simp add: hasMoreData_def new_data_view_reader_def new_Uint8Array_def
        byteLength_def)
  have fin: "\<not> hasMoreData \<lparr>dataView = new_Uint8Array (hdr @ payload),
                              littleEndian = False, position = psshSize\<rparr>"
    using len by (simp add: hasMoreData_def new_Uint8Array_def byteLength_def hdr_def
        length_be32)
  have "parse_boxes pssh_boxDefinitions 0 False False ?r ?st False
          = Inr (\<lparr>systemIds = [toHex (new_Uint8Array systemId)],
                   cencKeyIds = map toLowerCase keys,
                   data = [new_Uint8Array (hdr @ payload)]\<rparr>, False)"
    using callback
    apply (subst parse_boxes.simps)
    apply (simp add: more header del: parse_boxes.simps)
    apply (subst parse_boxes.simps)
    apply (simp add: fin del: parse_boxes.simps)
    done
  then have "new_pssh (new_Uint8Array (hdr @ payload))
               = Inr \<lparr>systemIds = [toHex (new_Uint8Array systemId)],
                      cencKeyIds = map toLowerCase keys,
                      data = [new_Uint8Array (hdr @ payload)]\<rparr>"
    by (simp add: new_pssh_def parse_def del: parse_boxes.simps)
  then show ?thesis
    by (simp only: box)
qed

lemma example_key_ids:
  "length upper_case_key_id = 32" "\<forall>c \<in> set upper_case_key_id. isHexDigit c"
  "length lower_case_key_id = 32" "\<forall>c \<in> set lower_case_key_id. isHexDigit c"
  "toLowerCase upper_case_key_id = ''abcdef0123456789abcdef0123456789''"
  "toLowerCase lower_case_key_id = lower_case_key_id"
  by (simp_all add: upper_case_key_id_def lower_case_key_id_def isHexDigit_def toLowerCase_def
      char_of_def bit_Suc_0_iff)

lemma example_system_id:
  "length widevine_system_id = 16"
  "toHex (new_Uint8Array widevine_system_id) = ''edef8ba979d64acea3c827dcd51d21ed''"
  by (simp_all add: widevine_system_id_def toHex_def new_Uint8Array_def toString16_def
      hexDigit_def char_of_def bit_Suc_0_iff)

text \<open>
  C8, amended: for every system ID of 16 bytes, every list of key IDs of 32 hexadecimal
  characters each (the elements of the \<open>Set\<close>, in insertion order) and every payload such that
  the box size \<open>36 + 16 * length keys + length dat\<close> is below \<open>2^32\<close>, \<open>createPssh\<close> with
  version 1 returns a box, and \<open>new pssh\<close> on that box records exactly one system ID, the
  hexadecimal form of the input system ID, the key IDs in \<^emph>\<open>lower case\<close> in the order of the
  input, and as the single recorded box the bytes that were built.
\<close>

theorem createPssh_round_trip:
  assumes "length systemId = 16"
    and "\<forall>k \<in> set keys. length k = 32 \<and> (\<forall>c \<in> set k. isHexDigit c)"
    and "36 + 16 * length keys + length dat < 2 ^ 32"
  shows "\<exists>box. createPssh dat systemId keys 1 = Inr box
           \<and> new_pssh (new_Uint8Array box)
               = Inr \<lparr>systemIds = [toHex (new_Uint8Array systemId)],
                      cencKeyIds = map toLowerCase keys,
                      data = [new_Uint8Array box]\<rparr>"
proof (intro exI conjI)
  from assms(2) have "\<forall>k \<in> set keys. length k = 32"
    by blast
  with assms(1) show "createPssh dat systemId keys 1 = Inr (pssh_v1_bytes dat systemId keys)"
    by (rule createPssh_layout)
  from assms show "new_pssh (new_Uint8Array (pssh_v1_bytes dat systemId keys))
      = Inr \<lparr>systemIds = [toHex (new_Uint8Array systemId)],
             cencKeyIds = map toLowerCase keys,
             data = [new_Uint8Array (pssh_v1_bytes dat systemId keys)]\<rparr>"
    by (rule new_pssh_v1_bytes)
qed

text \<open>A payload of three bytes with an upper-case and a lower-case key ID.\<close>

theorem createPssh_round_trip_witness:
  "\<exists>box. createPssh [1, 2, 3] widevine_system_id [upper_case_key_id, lower_case_key_id] 1
            = Inr box
         \<and> new_pssh (new_Uint8Array box)
             = Inr \<lparr>systemIds = [''edef8ba979d64acea3c827dcd51d21ed''],
                    cencKeyIds = [''abcdef0123456789abcdef0123456789'', lower_case_key_id],
                    data = [new_Uint8Array box]\<rparr>"
  using createPssh_round_trip
    [of widevine_system_id "[upper_case_key_id, lower_case_key_id]" "[1, 2, 3]"]
  by (simp add: example_key_ids example_system_id)

text \<open>
  C8, as stated, fails for a key ID with upper-case hexadecimal digits: \<open>fromHex\<close> reads
  them, \<open>toHex\<close> writes lower-case digits, so the recorded key ID differs from the input.
\<close>

theorem upper_case_key_id_counterexample:
  "\<exists>box recorded.
      createPssh [1, 2, 3] widevine_system_id [upper_case_key_id] 1 = Inr box
    \<and> new_pssh (new_Uint8Array box) = Inr recorded
    \<and> cencKeyIds recorded = [''abcdef0123456789abcdef0123456789'']
    \<and> cencKeyIds recorded \<noteq> [upper_case_key_id]"
proof -
  let ?box = "pssh_v1_bytes [1, 2, 3] widevine_system_id [upper_case_key_id]"
  have "createPssh [1, 2, 3] widevine_system_id [upper_case_key_id] 1 = Inr ?box"
    by (rule createPssh_layout) (simp_all add: example_key_ids example_system_id)
  moreover have "new_pssh (new_Uint8Array ?box)
       = Inr \<lparr>systemIds = [''edef8ba979d64acea3c827dcd51d21ed''],
              cencKeyIds = [''abcdef0123456789abcdef0123456789''],
              data = [new_Uint8Array ?box]\<rparr>"
    using new_pssh_v1_bytes [of widevine_system_id "[upper_case_key_id]" "[1, 2, 3]"]
    by (simp add: example_key_ids example_system_id)
  moreover have "[''abcdef0123456789abcdef0123456789''] \<noteq> [upper_case_key_id]"
    by (simp add: upper_case_key_id_def)
  ultimately show ?thesis
    by auto
qed

section \<open>Properties: the SIDX parser\<close>





















end
